theory Spec2Isabelle
  imports Main
begin

section \<open>Data model\<close>

text \<open>
  The cell types, positions, cells and solver results of \<^verbatim>\<open>App.tsx\<close>. A \<^verbatim>\<open>Cell\<close> has the
  fields of a \<^verbatim>\<open>Position\<close> and a type, so it is a record extension: the source applies
  \<^verbatim>\<open>posKey\<close> to both. JavaScript numbers that index the grid are modelled as \<open>int\<close>.
\<close>

datatype CellType = Wall | Passage | Start | End | Visited | Path | PathHead

record Position =
  row :: int
  col :: int

record Cell = Position +
  type :: CellType

type_synonym Grid = "Cell list list"

record SolveResult =
  path :: "Position list option"
  visitedOrder :: "Position list"

text \<open>
  The exceptions a call can end with: the \<^verbatim>\<open>Error("Maze must contain start and end")\<close>
  thrown by \<^verbatim>\<open>findStartEnd\<close>, and the \<^verbatim>\<open>TypeError\<close> JavaScript raises when a property of
  \<^verbatim>\<open>undefined\<close> is read or written (an array indexed outside its bounds yields
  \<^verbatim>\<open>undefined\<close>).
\<close>

datatype error = MissingEndpoint | TypeError

text \<open>
  \<^verbatim>\<open>posKey\<close> renders a position as the string \<^verbatim>\<open>row-col\<close>. The decimal rendering of an
  integer has a minus sign at most in front, so the string determines the pair of
  integers; keys of maps and sets are represented by that pair.
\<close>

definition posKey :: "'a Position_scheme \<Rightarrow> int \<times> int" where
  "posKey p = (row p, col p)"

text \<open>
  The boolean matrices \<^verbatim>\<open>visited\<close> are arrays of \<^verbatim>\<open>rows\<close> arrays filled with \<^verbatim>\<open>false\<close>. A row
  index outside \<open>0..rows-1\<close> yields \<^verbatim>\<open>undefined\<close>, whose indexing raises \<^verbatim>\<open>TypeError\<close>; a
  column index is a property key of the row array, which may be read (\<^verbatim>\<open>undefined\<close>, falsy,
  until written) and written at any integer. Only \<^verbatim>\<open>true\<close> is ever written. A matrix is
  therefore represented by its number of rows and the set of index pairs holding
  \<^verbatim>\<open>true\<close>.
\<close>

type_synonym BoolMatrix = "nat \<times> (int \<times> int) set"

definition newMatrix :: "nat \<Rightarrow> nat \<Rightarrow> BoolMatrix" where
  "newMatrix rows cols = (rows, {})"

definition matGet :: "BoolMatrix \<Rightarrow> int \<Rightarrow> int \<Rightarrow> error + bool" where
  "matGet m r c = (if 0 \<le> r \<and> r < int (fst m) then Inr ((r, c) \<in> snd m) else Inl TypeError)"

definition matSet :: "BoolMatrix \<Rightarrow> int \<Rightarrow> int \<Rightarrow> error + BoolMatrix" where
  "matSet m r c =
     (if 0 \<le> r \<and> r < int (fst m) then Inr (fst m, insert (r, c) (snd m)) else Inl TypeError)"

text \<open>
  A \<^verbatim>\<open>for (const x of xs) { ... }\<close> loop whose body may throw: the body maps the loop's
  variables to their new values or to the exception, which ends the loop.
\<close>

fun forEach :: "'a list \<Rightarrow> ('a \<Rightarrow> 's \<Rightarrow> error + 's) \<Rightarrow> 's \<Rightarrow> error + 's" where
  "forEach [] body s = Inr s"
| "forEach (x # xs) body s =
     (case body x s of Inl e \<Rightarrow> Inl e | Inr s' \<Rightarrow> forEach xs body s')"

section \<open>Maze generation\<close>

text \<open>
  \<^verbatim>\<open>grid[r][c].type = t\<close>: the row and the cell must exist, otherwise the assignment raises
  \<^verbatim>\<open>TypeError\<close>.
\<close>

definition setType :: "Grid \<Rightarrow> int \<Rightarrow> int \<Rightarrow> CellType \<Rightarrow> error + Grid" where
  "setType grid r c t =
     (if 0 \<le> r \<and> r < int (length grid) \<and> 0 \<le> c \<and> c < int (length (grid ! nat r))
      then Inr (grid[nat r := (grid ! nat r)[nat c := (grid ! nat r ! nat c)\<lparr>type := t\<rparr>]])
      else Inl TypeError)"

definition inBounds :: "int \<Rightarrow> int \<Rightarrow> int \<Rightarrow> int \<Rightarrow> bool" where
  "inBounds clampedRows clampedCols mr mc =
     (mr \<ge> 0 \<and> mr < clampedRows \<and> mc \<ge> 0 \<and> mc < clampedCols)"

text \<open>
  \<^verbatim>\<open>Math.random\<close> is a parameter: \<open>rnd k\<close> is any natural number, and its residue modulo
  \<open>i + 1\<close> is the value of \<^verbatim>\<open>Math.floor(Math.random() * (i + 1))\<close> at the \<open>k\<close>-th call, which
  lies in \<open>0..i\<close>. The generator's state holds the number of calls made so far.
  The shuffle runs \<open>i\<close> from \<^verbatim>\<open>dirs.length - 1\<close> down to 1 and swaps \<^verbatim>\<open>dirs[i]\<close> and
  \<^verbatim>\<open>dirs[j]\<close>.
\<close>

definition dirs0 :: "(int \<times> int) list" where
  "dirs0 = [(0, 1), (0, -1), (1, 0), (-1, 0)]"

fun shuffleLoop :: "(nat \<Rightarrow> nat) \<Rightarrow> nat \<Rightarrow> (int \<times> int) list \<Rightarrow> nat
    \<Rightarrow> (int \<times> int) list \<times> nat" where
  "shuffleLoop rnd 0 dirs k = (dirs, k)"
| "shuffleLoop rnd (Suc i') dirs k =
     (let i = Suc i';
          j = rnd k mod (i + 1)
      in shuffleLoop rnd i' (dirs[i := dirs ! j, j := dirs ! i]) (k + 1))"

text \<open>
  A \<^verbatim>\<open>for ... of\<close> loop whose body may throw or, calling \<^verbatim>\<open>carveFrom\<close>, exhaust the
  recursion depth it is given (\<open>None\<close>).
\<close>

fun forEachF :: "'a list \<Rightarrow> ('a \<Rightarrow> 's \<Rightarrow> (error + 's) option) \<Rightarrow> 's \<Rightarrow> (error + 's) option" where
  "forEachF [] body s = Some (Inr s)"
| "forEachF (x # xs) body s =
     (case body x s of
        None \<Rightarrow> None
      | Some (Inl e) \<Rightarrow> Some (Inl e)
      | Some (Inr s') \<Rightarrow> forEachF xs body s')"

text \<open>
  The state of \<^verbatim>\<open>generatePerfectMaze\<close> that \<^verbatim>\<open>carveFrom\<close> updates: the grid, the matrix
  \<^verbatim>\<open>visited\<close> of the rooms and the number of calls of \<^verbatim>\<open>Math.random\<close>. The recursion of
  \<^verbatim>\<open>carveFrom\<close> is bounded by a depth \<open>fuel\<close>; \<open>None\<close> says the bound was too small.
\<close>

type_synonym GenState = "Grid \<times> BoolMatrix \<times> nat"

primrec carveFrom :: "nat \<Rightarrow> (nat \<Rightarrow> nat) \<Rightarrow> int \<Rightarrow> int \<Rightarrow> int \<Rightarrow> int \<Rightarrow> GenState
    \<Rightarrow> (error + GenState) option" where
  "carveFrom 0 rnd clampedRows clampedCols mr mc s = None"
| "carveFrom (Suc fuel) rnd clampedRows clampedCols mr mc s =
     (case s of (grid, visited, k) \<Rightarrow>
        (case matSet visited mr mc of
           Inl e \<Rightarrow> Some (Inl e)
         | Inr visited1 \<Rightarrow>
             (let r = 2 * mr + 1;
                  c = 2 * mc + 1
              in (case setType grid r c Passage of
                    Inl e \<Rightarrow> Some (Inl e)
                  | Inr grid1 \<Rightarrow>
                      (case shuffleLoop rnd (length dirs0 - 1) dirs0 k of
                         (dirs, k1) \<Rightarrow>
                           forEachF dirs
                             (\<lambda>(dr, dc) (grid, visited, k).
                                (let nmr = mr + dr;
                                     nmc = mc + dc
                                 in if \<not> inBounds clampedRows clampedCols nmr nmc
                                    then Some (Inr (grid, visited, k))
                                    else (case matGet visited nmr nmc of
                                            Inl e \<Rightarrow> Some (Inl e)
                                          | Inr True \<Rightarrow> Some (Inr (grid, visited, k))
                                          | Inr False \<Rightarrow>
                                              (let wallR = r + dr;
                                                   wallC = c + dc
                                               in (case setType grid wallR wallC Passage of
                                                     Inl e \<Rightarrow> Some (Inl e)
                                                   | Inr grid2 \<Rightarrow>
                                                       carveFrom fuel rnd clampedRows
                                                         clampedCols nmr nmc
                                                         (grid2, visited, k))))))
                             (grid1, visited1, k1))))))"

definition wallGrid :: "nat \<Rightarrow> nat \<Rightarrow> Grid" where
  "wallGrid rows cols =
     map (\<lambda>r. map (\<lambda>c. \<lparr>row = int r, col = int c, type = Wall\<rparr>) [0..<cols]) [0..<rows]"

definition generatePerfectMaze :: "nat \<Rightarrow> (nat \<Rightarrow> nat) \<Rightarrow> int \<Rightarrow> int \<Rightarrow> (error + Grid) option" where
  "generatePerfectMaze fuel rnd mazeRows mazeCols =
     (let clampedRows = min 50 (max 5 mazeRows);
          clampedCols = min 50 (max 5 mazeCols);
          rows = 2 * clampedRows + 1;
          cols = 2 * clampedCols + 1;
          grid = wallGrid (nat rows) (nat cols);
          visited = newMatrix (nat clampedRows) (nat clampedCols)
      in (case carveFrom fuel rnd clampedRows clampedCols 0 0 (grid, visited, 0) of
            None \<Rightarrow> None
          | Some (Inl e) \<Rightarrow> Some (Inl e)
          | Some (Inr (grid1, visited1, k)) \<Rightarrow>
              (case setType grid1 1 0 Start of
                 Inl e \<Rightarrow> Some (Inl e)
               | Inr grid2 \<Rightarrow>
                   (case setType grid2 (rows - 2) (cols - 1) End of
                      Inl e \<Rightarrow> Some (Inl e)
                    | Inr grid3 \<Rightarrow> Some (Inr grid3)))))"


section \<open>Pathfinding\<close>

subsection \<open>getNeighbors\<close>

definition deltas :: "(int \<times> int) list" where
  "deltas = [(-1, 0), (1, 0), (0, -1), (0, 1)]"

text \<open>
  \<^verbatim>\<open>grid[0].length\<close> raises on an empty grid; \<^verbatim>\<open>grid[nr]\<close> exists when \<open>0 \<le> nr < rows\<close>, but
  \<^verbatim>\<open>grid[nr][nc]\<close> is \<^verbatim>\<open>undefined\<close> in a row shorter than row 0, and reading its type raises.
\<close>

definition neighborStep :: "Grid \<Rightarrow> 'a Position_scheme \<Rightarrow> int \<times> int \<Rightarrow> Position list
    \<Rightarrow> error + Position list" where
  "neighborStep grid pos d res =
     (let rows = int (length grid);
          cols = int (length (hd grid));
          nr = row pos + fst d;
          nc = col pos + snd d
      in if nr < 0 \<or> nr \<ge> rows \<or> nc < 0 \<or> nc \<ge> cols then Inr res
         else if nc \<ge> int (length (grid ! nat nr)) then Inl TypeError
         else if type (grid ! nat nr ! nat nc) = Wall then Inr res
         else Inr (res @ [\<lparr>row = nr, col = nc\<rparr>]))"

definition getNeighbors :: "Grid \<Rightarrow> 'a Position_scheme \<Rightarrow> error + Position list" where
  "getNeighbors grid pos =
     (if grid = [] then Inl TypeError
      else forEach deltas (neighborStep grid pos) [])"

subsection \<open>findStartEnd\<close>

definition scanCell :: "Cell \<Rightarrow> Position option \<times> Position option
    \<Rightarrow> Position option \<times> Position option" where
  "scanCell cell se =
     (let start = (if type cell = Start then Some \<lparr>row = row cell, col = col cell\<rparr> else fst se);
          end = (if type cell = End then Some \<lparr>row = row cell, col = col cell\<rparr> else snd se)
      in (start, end))"

definition findStartEnd :: "Grid \<Rightarrow> error + (Position \<times> Position)" where
  "findStartEnd grid =
     (case fold (\<lambda>cells se. fold scanCell cells se) grid (None, None) of
        (Some start, Some end) \<Rightarrow> Inr (start, end)
      | _ \<Rightarrow> Inl MissingEndpoint)"

subsection \<open>Path reconstruction\<close>

type_synonym ParentMap = "int \<times> int \<rightharpoonup> Position option"

text \<open>\<^verbatim>\<open>parent.get(posKey(cur)) ?? null\<close>: a missing key and a stored \<^verbatim>\<open>null\<close> both give \<^verbatim>\<open>null\<close>.\<close>

definition getParent :: "ParentMap \<Rightarrow> Position \<Rightarrow> Position option" where
  "getParent parent cur = (case parent (posKey cur) of None \<Rightarrow> None | Some p \<Rightarrow> p)"

text \<open>
  The loop \<^verbatim>\<open>while (cur) { path.push(cur); cur = parent.get(posKey(cur)) ?? null; }\<close> does
  not return on a cyclic parent map: its model is a partial function, \<open>None\<close> when it
  runs forever.
\<close>

partial_function (option) buildPath :: "ParentMap \<Rightarrow> Position option \<Rightarrow> Position list
    \<Rightarrow> Position list option" where
  "buildPath parent cur pth =
     (case cur of
        None \<Rightarrow> Some pth
      | Some c \<Rightarrow> buildPath parent (getParent parent c) (pth @ [c]))"

declare buildPath.simps [code]

definition reconstruct :: "ParentMap \<Rightarrow> Position \<Rightarrow> Position list
    \<Rightarrow> (error + SolveResult) option" where
  "reconstruct parent end order =
     (if posKey end \<notin> dom parent then Some (Inr \<lparr>path = None, visitedOrder = order\<rparr>)
      else case buildPath parent (Some end) [] of
             None \<Rightarrow> None
           | Some p \<Rightarrow> Some (Inr \<lparr>path = Some (rev p), visitedOrder = order\<rparr>))"

subsection \<open>bfs\<close>

definition bfsVisit :: "Position \<Rightarrow> Position
    \<Rightarrow> BoolMatrix \<times> ParentMap \<times> Position list
    \<Rightarrow> error + (BoolMatrix \<times> ParentMap \<times> Position list)" where
  "bfsVisit cur n s =
     (case s of (visited, parent, q) \<Rightarrow>
        (case matGet visited (row n) (col n) of
           Inl e \<Rightarrow> Inl e
         | Inr True \<Rightarrow> Inr s
         | Inr False \<Rightarrow>
             (case matSet visited (row n) (col n) of
                Inl e \<Rightarrow> Inl e
              | Inr visited' \<Rightarrow> Inr (visited', parent(posKey n \<mapsto> Some cur), q @ [n]))))"

definition gridRange :: "Grid \<Rightarrow> (int \<times> int) set" where
  "gridRange grid = {0 ..< int (length grid)} \<times> {0 ..< int (length (hd grid))}"

function bfs_loop :: "Grid \<Rightarrow> Position
    \<Rightarrow> Position list \<times> BoolMatrix \<times> ParentMap \<times> Position list
    \<Rightarrow> error + (ParentMap \<times> Position list)" where
  "bfs_loop grid end ([], visited, parent, order) = Inr (parent, order)"
| "bfs_loop grid end (cur # q, visited, parent, order) =
     (if row cur = row end \<and> col cur = col end then Inr (parent, order @ [cur])
      else case getNeighbors grid cur of
             Inl e \<Rightarrow> Inl e
           | Inr ns \<Rightarrow>
               (case forEach ns (bfsVisit cur) (visited, parent, q) of
                  Inl e \<Rightarrow> Inl e
                | Inr (visited', parent', q') \<Rightarrow>
                    bfs_loop grid end (q', visited', parent', order @ [cur])))"
  by pat_completeness auto


text \<open>
  Each iteration dequeues one position and enqueues only positions of the grid that were
  not marked before, so the loop ends on every input.
\<close>


lemma forEach_invariant:
  assumes "forEach xs body s = Inr s'" and "P s"
    and "\<And>x t t'. x \<in> set xs \<Longrightarrow> P t \<Longrightarrow> body x t = Inr t' \<Longrightarrow> P t'"
  shows "P s'"
  using assms
proof (induction xs arbitrary: s)
  case Nil
  then show ?case by simp
next
  case (Cons x xs)
  from Cons.prems(1) obtain t where t: "body x s = Inr t" and r: "forEach xs body t = Inr s'"
    by (auto split: sum.splits)
  have "P t" using Cons.prems(3)[of x s t] Cons.prems(2) t by simp
  then show ?case
    by (rule Cons.IH[OF r]) (rule Cons.prems(3), simp_all)
qed

lemma finite_gridRange: "finite (gridRange g)"
  by (simp add: gridRange_def)

lemma neighborStep_range:
  assumes "neighborStep g pos d res = Inr res'" and "posKey ` set res \<subseteq> gridRange g"
  shows "posKey ` set res' \<subseteq> gridRange g"
proof -
  from assms(1) have "res' = res \<or> (\<exists>n. res' = res @ [n] \<and> posKey n \<in> gridRange g)"
    by (auto simp: neighborStep_def Let_def gridRange_def posKey_def split: if_splits)
  then show ?thesis using assms(2) by (fastforce simp: image_subset_iff)
qed

lemma getNeighbors_range:
  assumes "getNeighbors g pos = Inr ns"
  shows "posKey ` set ns \<subseteq> gridRange g"
proof -
  from assms have fe: "forEach deltas (neighborStep g pos) [] = Inr ns"
    by (simp add: getNeighbors_def split: if_splits)
  show ?thesis
    by (rule forEach_invariant[OF fe, where P = "\<lambda>r. posKey ` set r \<subseteq> gridRange g"])
       (simp, erule (1) neighborStep_range)
qed

definition bfsMeasure :: "Grid \<Rightarrow> BoolMatrix \<Rightarrow> Position list \<Rightarrow> nat" where
  "bfsMeasure g v q = 2 * card (gridRange g - snd v) + length q"

lemma bfsVisit_measure:
  assumes "bfsVisit cur n (v, p, q) = Inr (v', p', q')" and "posKey n \<in> gridRange g"
  shows "bfsMeasure g v' q' \<le> bfsMeasure g v q"
proof (cases "posKey n \<in> snd v")
  case True
  then show ?thesis using assms
    by (auto simp: bfsVisit_def matGet_def matSet_def posKey_def split: if_splits sum.splits bool.splits)
next
  case False
  with assms have v': "snd v' = insert (posKey n) (snd v)" and q': "q' = q @ [n]"
    by (auto simp: bfsVisit_def matGet_def matSet_def posKey_def split: if_splits sum.splits bool.splits)
  have "posKey n \<in> gridRange g - snd v" using False assms(2) by simp
  moreover have "gridRange g - snd v' = (gridRange g - snd v) - {posKey n}" using v' by auto
  ultimately have "card (gridRange g - snd v') = card (gridRange g - snd v) - 1"
    and "card (gridRange g - snd v) > 0"
    using finite_gridRange[of g] by (auto simp: card_gt_0_iff)
  then show ?thesis using q' by (simp add: bfsMeasure_def)
qed

lemma forEach_bfsVisit_measure:
  assumes "forEach ns (bfsVisit cur) (v, p, q) = Inr (v', p', q')"
    and "posKey ` set ns \<subseteq> gridRange g"
  shows "bfsMeasure g v' q' \<le> bfsMeasure g v q"
proof -
  have "(\<lambda>(a, b, c). bfsMeasure g a c \<le> bfsMeasure g v q) (v', p', q')"
  proof (rule forEach_invariant[OF assms(1)])
    show "(\<lambda>(a, b, c). bfsMeasure g a c \<le> bfsMeasure g v q) (v, p, q)" by simp
  next
    fix x t t'
    assume "x \<in> set ns" "(\<lambda>(a, b, c). bfsMeasure g a c \<le> bfsMeasure g v q) t"
      "bfsVisit cur x t = Inr t'"
    then show "(\<lambda>(a, b, c). bfsMeasure g a c \<le> bfsMeasure g v q) t'"
      using bfsVisit_measure[of cur x "fst t" "fst (snd t)" "snd (snd t)" "fst t'" "fst (snd t')" "snd (snd t')" g]
        assms(2)
      by (cases t; cases t') (auto simp: image_subset_iff)
  qed
  then show ?thesis by simp
qed

termination bfs_loop
proof (relation "measure (\<lambda>(g, e, q, v, p, order). bfsMeasure g v q)", goal_cases)
  case 1
  then show ?case by simp
next
  case (2 grid e cur q visited parent order ns s visited' rest parent' q')
  then have "bfsMeasure grid visited' q' \<le> bfsMeasure grid visited q"
    using forEach_bfsVisit_measure[of ns cur visited parent q visited' parent' q' grid]
      getNeighbors_range[of grid cur ns] by simp
  then show ?case by (simp add: bfsMeasure_def)
qed



definition bfs :: "Grid \<Rightarrow> (error + SolveResult) option" where
  "bfs grid =
     (case findStartEnd grid of
        Inl e \<Rightarrow> Some (Inl e)
      | Inr (start, end) \<Rightarrow>
          if grid = [] then Some (Inl TypeError)
          else let rows = length grid;
                   cols = length (hd grid);
                   visited = newMatrix rows cols
               in (case matSet visited (row start) (col start) of
                     Inl e \<Rightarrow> Some (Inl e)
                   | Inr visited1 \<Rightarrow>
                       (case bfs_loop grid end
                               ([start], visited1, Map.empty(posKey start \<mapsto> None), []) of
                          Inl e \<Rightarrow> Some (Inl e)
                        | Inr (parent, order) \<Rightarrow> reconstruct parent end order)))"

subsection \<open>dfs\<close>

text \<open>
  The stack is the JavaScript array: \<^verbatim>\<open>push\<close> appends, \<^verbatim>\<open>pop\<close> takes the last element. The
  loop \<^verbatim>\<open>for (let i = neighbors.length - 1; i >= 0; i--)\<close> runs over the reversed list.
\<close>
definition dfsPush :: "Position \<Rightarrow> BoolMatrix \<Rightarrow> Position
    \<Rightarrow> ParentMap \<times> Position list \<Rightarrow> error + (ParentMap \<times> Position list)" where
  "dfsPush cur visited n s =
     (case s of (parent, stack) \<Rightarrow>
        (case matGet visited (row n) (col n) of
           Inl e \<Rightarrow> Inl e
         | Inr True \<Rightarrow> Inr s
         | Inr False \<Rightarrow>
             Inr (if posKey n \<in> dom parent then parent else parent(posKey n \<mapsto> Some cur),
                  stack @ [n])))"

function dfs_loop :: "Grid \<Rightarrow> Position
    \<Rightarrow> Position list \<times> BoolMatrix \<times> ParentMap \<times> Position list
    \<Rightarrow> error + (ParentMap \<times> Position list)" where
  "dfs_loop grid end (stack, visited, parent, order) =
     (if stack = [] then Inr (parent, order)
      else let cur = last stack; stack1 = butlast stack
           in (case matGet visited (row cur) (col cur) of
                 Inl e \<Rightarrow> Inl e
               | Inr True \<Rightarrow> dfs_loop grid end (stack1, visited, parent, order)
               | Inr False \<Rightarrow>
                   (case matSet visited (row cur) (col cur) of
                      Inl e \<Rightarrow> Inl e
                    | Inr visited1 \<Rightarrow>
                        if row cur = row end \<and> col cur = col end
                        then Inr (parent, order @ [cur])
                        else (case getNeighbors grid cur of
                                Inl e \<Rightarrow> Inl e
                              | Inr neighbors \<Rightarrow>
                                  (case forEach (rev neighbors) (dfsPush cur visited1)
                                          (parent, stack1) of
                                     Inl e \<Rightarrow> Inl e
                                   | Inr (parent', stack') \<Rightarrow>
                                       dfs_loop grid end
                                         (stack', visited1, parent', order @ [cur]))))))"
  by pat_completeness auto

definition dfsMeasure :: "Grid \<Rightarrow> BoolMatrix \<Rightarrow> Position list \<Rightarrow> nat" where
  "dfsMeasure g v stack = card ((gridRange g \<union> posKey ` set stack) - snd v)"

lemma dfsPush_stack:
  assumes "dfsPush cur v n (p, st) = Inr (p', st')"
  shows "set st' \<subseteq> insert n (set st)"
  using assms
  by (auto simp: dfsPush_def split: sum.splits bool.splits if_splits)

lemma forEach_dfsPush_stack:
  assumes "forEach ns (dfsPush cur v) (p, st) = Inr (p', st')"
  shows "set st' \<subseteq> set ns \<union> set st"
proof -
  have "(\<lambda>(a, b). set b \<subseteq> set ns \<union> set st) (p', st')"
  proof (rule forEach_invariant[OF assms])
    show "(\<lambda>(a, b). set b \<subseteq> set ns \<union> set st) (p, st)" by simp
  next
    fix x t t'
    assume "x \<in> set ns" "(\<lambda>(a, b). set b \<subseteq> set ns \<union> set st) t" "dfsPush cur v x t = Inr t'"
    then show "(\<lambda>(a, b). set b \<subseteq> set ns \<union> set st) t'"
      using dfsPush_stack[of cur v x "fst t" "snd t" "fst t'" "snd t'"]
      by (cases t; cases t') auto
  qed
  then show ?thesis by simp
qed

lemma dfsMeasure_butlast:
  "dfsMeasure g v (butlast stack) \<le> dfsMeasure g v stack"
  unfolding dfsMeasure_def
  by (rule card_mono) (auto simp: finite_gridRange dest: in_set_butlastD)

lemma dfsMeasure_mark:
  assumes "stack \<noteq> []" and "posKey (last stack) \<notin> snd v"
    and "set st' \<subseteq> set ns \<union> set (butlast stack)" and "posKey ` set ns \<subseteq> gridRange g"
  shows "dfsMeasure g (fst v, insert (posKey (last stack)) (snd v)) st' < dfsMeasure g v stack"
  unfolding dfsMeasure_def
proof (rule psubset_card_mono)
  show "finite ((gridRange g \<union> posKey ` set stack) - snd v)"
    by (simp add: finite_gridRange)
  have "posKey (last stack) \<in> (gridRange g \<union> posKey ` set stack) - snd v"
    using assms(1,2) by simp
  moreover have "(gridRange g \<union> posKey ` set st')
      - snd (fst v, insert (posKey (last stack)) (snd v))
      \<subseteq> (gridRange g \<union> posKey ` set stack) - snd v - {posKey (last stack)}"
  proof -
    have "set st' \<subseteq> set ns \<union> set stack"
      using assms(3) by (blast dest: in_set_butlastD)
    then have "posKey ` set st' \<subseteq> gridRange g \<union> posKey ` set stack"
      using assms(4) by blast
    then show ?thesis by (simp only: snd_conv) blast
  qed
  ultimately show "(gridRange g \<union> posKey ` set st')
      - snd (fst v, insert (posKey (last stack)) (snd v))
      \<subset> (gridRange g \<union> posKey ` set stack) - snd v"
    by blast
qed

termination dfs_loop
proof (relation "measures [\<lambda>(g, e, stack, v, p, order). dfsMeasure g v stack,
                           \<lambda>(g, e, stack, v, p, order). length stack]", goal_cases)
  case 1
  then show ?case by simp
next
  case (2 grid e stack visited parent order cur stack1 b)
  then show ?case
    using dfsMeasure_butlast[of grid visited stack] by auto
next
  case (3 grid e stack visited parent order cur stack1 b visited1 neighbors s parent' stack')
  from 3 have v1: "visited1 = (fst visited, insert (posKey (last stack)) (snd visited))"
    and nin: "posKey (last stack) \<notin> snd visited"
    by (auto simp: matGet_def matSet_def posKey_def split: if_splits)
  have "set stack' \<subseteq> set (rev neighbors) \<union> set (butlast stack)"
    using 3 forEach_dfsPush_stack[of "rev neighbors" cur visited1 parent stack1 parent' stack']
    by simp
  then have "dfsMeasure grid visited1 stack' < dfsMeasure grid visited stack"
    unfolding v1 using 3 nin getNeighbors_range[of grid cur neighbors]
    by (intro dfsMeasure_mark) auto
  then show ?case by simp
qed


definition dfs :: "Grid \<Rightarrow> (error + SolveResult) option" where
  "dfs grid =
     (case findStartEnd grid of
        Inl e \<Rightarrow> Some (Inl e)
      | Inr (start, end) \<Rightarrow>
          if grid = [] then Some (Inl TypeError)
          else let rows = length grid;
                   cols = length (hd grid);
                   visited = newMatrix rows cols
               in (case dfs_loop grid end
                            ([start], visited, Map.empty(posKey start \<mapsto> None), []) of
                     Inl e \<Rightarrow> Some (Inl e)
                   | Inr (parent, order) \<Rightarrow> reconstruct parent end order))"

section \<open>Animation\<close>

datatype Algorithm = AlgBfs | AlgDfs

datatype Speed = Slow | Normal | Fast

text \<open>
  The callbacks handed to \<^verbatim>\<open>window.setTimeout\<close> by \<^verbatim>\<open>handleSolve\<close>, each with the variables
  its closure captures: the visited step (\<^verbatim>\<open>pos\<close>, \<^verbatim>\<open>i\<close>, \<^verbatim>\<open>visitedOrder.length\<close>), the path step
  (\<^verbatim>\<open>keyToIndex\<close>, \<^verbatim>\<open>i\<close>, \<^verbatim>\<open>path.length\<close>, \<^verbatim>\<open>baseDelay\<close>, \<^verbatim>\<open>algorithm\<close>) and the finalize step
  (\<^verbatim>\<open>algorithm\<close>).
\<close>

datatype Callback =
    VisitedCb Position nat nat
  | PathCb "int \<times> int \<rightharpoonup> nat" nat nat nat Algorithm
  | FinalizeCb Algorithm

text \<open>
  The component's state (\<^verbatim>\<open>useState\<close> and \<^verbatim>\<open>useRef\<close> values) together with the part of the
  browser it drives: the pending timers (identifier, due time, callback), the clock and
  the next timer identifier. \<open>visitedSet\<close> is the \<^verbatim>\<open>Set\<close> shared by the visited callbacks of
  the running animation. A state setter is applied at once. Sound is left out.
\<close>

record AppState =
  grid :: Grid
  algorithm :: Algorithm
  speed :: Speed
  status :: string
  pathLength :: "nat option"
  visitedCount :: "nat option"
  isAnimating :: bool
  timeouts :: "nat list"
  visitedSet :: "(int \<times> int) set"
  timers :: "(nat \<times> nat \<times> Callback) list"
  now :: nat
  nextId :: nat

definition setTimeout :: "Callback \<Rightarrow> nat \<Rightarrow> AppState \<Rightarrow> nat \<times> AppState" where
  "setTimeout cb delay st =
     (nextId st,
      st\<lparr>timers := timers st @ [(nextId st, now st + delay, cb)], nextId := nextId st + 1\<rparr>)"

definition clearTimeout :: "nat \<Rightarrow> AppState \<Rightarrow> AppState" where
  "clearTimeout ident st = st\<lparr>timers := filter (\<lambda>t. fst t \<noteq> ident) (timers st)\<rparr>"

definition clearAnimations :: "AppState \<Rightarrow> AppState" where
  "clearAnimations st = (fold clearTimeout (timeouts st) st)\<lparr>timeouts := []\<rparr>"

definition clearCell :: "Cell \<Rightarrow> Cell" where
  "clearCell cell =
     (if type cell = Visited \<or> type cell = Path \<or> type cell = PathHead
      then cell\<lparr>type := Passage\<rparr> else cell)"

definition clearPath :: "AppState \<Rightarrow> AppState" where
  "clearPath st =
     (if isAnimating st then st
      else (clearAnimations st)
             \<lparr>grid := map (map clearCell) (grid (clearAnimations st)),
              status := ''Cleared path'', pathLength := None, visitedCount := None\<rparr>)"

subsection \<open>The three grid updates\<close>

definition visitedCell :: "(int \<times> int) set \<Rightarrow> Cell \<Rightarrow> Cell" where
  "visitedCell vs cell =
     (if type cell \<noteq> Start \<and> type cell \<noteq> End \<and> posKey cell \<in> vs
      then (if type cell = Path \<or> type cell = PathHead then cell
            else cell\<lparr>type := Visited\<rparr>)
      else cell)"

definition pathCell :: "(int \<times> int \<rightharpoonup> nat) \<Rightarrow> nat \<Rightarrow> Cell \<Rightarrow> Cell" where
  "pathCell keyToIndex i cell =
     (if type cell = Start \<or> type cell = End then cell
      else case keyToIndex (posKey cell) of
             None \<Rightarrow> cell
           | Some idx \<Rightarrow>
               if idx = i then cell\<lparr>type := PathHead\<rparr>
               else if idx < i then cell\<lparr>type := Path\<rparr>
               else cell)"

definition finalizeCell :: "Cell \<Rightarrow> Cell" where
  "finalizeCell cell = (if type cell = PathHead then cell\<lparr>type := Path\<rparr> else cell)"

definition algorithmName :: "Algorithm \<Rightarrow> string" where
  "algorithmName a = (case a of AlgBfs \<Rightarrow> ''BFS'' | AlgDfs \<Rightarrow> ''DFS'')"

fun fire :: "Callback \<Rightarrow> AppState \<Rightarrow> AppState" where
  "fire (VisitedCb pos i vlen) st =
     (let vs = insert (posKey pos) (visitedSet st);
          st1 = st\<lparr>visitedSet := vs, grid := map (map (visitedCell vs)) (grid st)\<rparr>
      in if int i = int vlen - 1 then st1\<lparr>status := ''Drawing shortest path...''\<rparr> else st1)"
| "fire (PathCb keyToIndex i plen baseDelay alg) st =
     (let st1 = st\<lparr>grid := map (map (pathCell keyToIndex i)) (grid st)\<rparr>
      in if int i = int plen - 1 then snd (setTimeout (FinalizeCb alg) (baseDelay * 2) st1)
         else st1)"
| "fire (FinalizeCb alg) st =
     st\<lparr>grid := map (map finalizeCell) (grid st), isAnimating := False,
        status := ''Solved using '' @ algorithmName alg\<rparr>"

subsection \<open>The timer queue\<close>

text \<open>
  The browser runs the pending timer that is due first, the one registered first among
  those due at the same time, at its due time.
\<close>

fun nextTimer :: "(nat \<times> nat \<times> Callback) list \<Rightarrow> (nat \<times> nat \<times> Callback) option" where
  "nextTimer [] = None"
| "nextTimer (t # ts) =
     (case nextTimer ts of
        None \<Rightarrow> Some t
      | Some u \<Rightarrow> if fst (snd t) \<le> fst (snd u) then Some t else Some u)"

definition runTimer :: "AppState \<Rightarrow> ((nat \<times> Callback) \<times> AppState) option" where
  "runTimer st =
     (case nextTimer (timers st) of
        None \<Rightarrow> None
      | Some (ident, due, cb) \<Rightarrow>
          Some ((due, cb),
                fire cb (st\<lparr>timers := filter (\<lambda>t. fst t \<noteq> ident) (timers st), now := due\<rparr>)))"

text \<open>The first \<open>n\<close> timer events after a state: the calls made, with their times, and the
  state they leave.\<close>

fun runTimers :: "nat \<Rightarrow> AppState \<Rightarrow> (nat \<times> Callback) list \<times> AppState" where
  "runTimers 0 st = ([], st)"
| "runTimers (Suc n) st =
     (case runTimer st of
        None \<Rightarrow> ([], st)
      | Some (ev, st') \<Rightarrow> (case runTimers n st' of (evs, st'') \<Rightarrow> (ev # evs, st'')))"

subsection \<open>handleSolve\<close>

definition baseDelayOf :: "Speed \<Rightarrow> nat" where
  "baseDelayOf s = (if s = Slow then 40 else if s = Fast then 5 else 20)"

definition solverOf :: "Algorithm \<Rightarrow> Grid \<Rightarrow> (error + SolveResult) option" where
  "solverOf a = (if a = AlgBfs then bfs else dfs)"

definition schedule :: "Callback \<Rightarrow> nat \<Rightarrow> AppState \<Rightarrow> AppState" where
  "schedule cb delay st =
     (case setTimeout cb delay st of (ident, st') \<Rightarrow> st'\<lparr>timeouts := timeouts st' @ [ident]\<rparr>)"

definition mkKeyToIndex :: "Position list \<Rightarrow> (int \<times> int \<rightharpoonup> nat)" where
  "mkKeyToIndex p = fold (\<lambda>(idx, k) m. m(k \<mapsto> idx)) (enumerate 0 (map posKey p)) Map.empty"

definition animate :: "Position list \<Rightarrow> Position list \<Rightarrow> AppState \<Rightarrow> AppState" where
  "animate vo p st =
     (let baseDelay = baseDelayOf (speed st);
          st1 = st\<lparr>visitedSet := {}\<rparr>;
          st2 = fold (\<lambda>(i, pos). schedule (VisitedCb pos i (length vo)) (baseDelay * i))
                  (enumerate 0 vo) st1;
          keyToIndex = mkKeyToIndex p
      in fold (\<lambda>(i, pos). schedule (PathCb keyToIndex i (length p) baseDelay (algorithm st))
                          (baseDelay * length vo + baseDelay * i))
           (enumerate 0 p) st2)"

definition handleSolve :: "AppState \<Rightarrow> (error + AppState) option" where
  "handleSolve st =
     (if isAnimating st then Some (Inr st)
      else let st1 = clearPath (clearAnimations st);
               st2 = st1\<lparr>status := ''Solving maze...''\<rparr>;
               snapshot = grid st
           in (case solverOf (algorithm st) snapshot of
                 None \<Rightarrow> None
               | Some (Inl e) \<Rightarrow> Some (Inl e)
               | Some (Inr res) \<Rightarrow>
                   (let st3 = st2\<lparr>visitedCount := Some (length (visitedOrder res))\<rparr>
                    in case path res of
                         None \<Rightarrow> Some (Inr (st3\<lparr>status := ''No path found''\<rparr>))
                       | Some p \<Rightarrow>
                           Some (Inr (animate (visitedOrder res) p
                                        (st3\<lparr>pathLength := Some (length p),
                                             isAnimating := True\<rparr>))))))"

section \<open>The endpoints of a grid\<close>

definition countType :: "CellType \<Rightarrow> Grid \<Rightarrow> nat" where
  "countType t g = length (filter (\<lambda>cell. type cell = t) (concat g))"

definition twoStartsGrid :: Grid where
  "twoStartsGrid =
     [[\<lparr>row = 0, col = 0, type = Start\<rparr>, \<lparr>row = 0, col = 1, type = Start\<rparr>,
       \<lparr>row = 0, col = 2, type = End\<rparr>]]"

definition noStartGrid :: Grid where
  "noStartGrid = [[\<lparr>row = 0, col = 0, type = Passage\<rparr>, \<lparr>row = 0, col = 1, type = End\<rparr>]]"

lemma countType_0: "countType t g = 0 \<longleftrightarrow> (\<forall>c \<in> set (concat g). type c \<noteq> t)"
  by (simp add: countType_def filter_empty_conv)

lemma fold_scanCell_fst:
  "fst (fold scanCell cells se) = None \<longleftrightarrow> fst se = None \<and> (\<forall>c \<in> set cells. type c \<noteq> Start)"
  by (induction cells arbitrary: se) (auto simp: scanCell_def Let_def)

lemma fold_scanCell_snd:
  "snd (fold scanCell cells se) = None \<longleftrightarrow> snd se = None \<and> (\<forall>c \<in> set cells. type c \<noteq> End)"
  by (induction cells arbitrary: se) (auto simp: scanCell_def Let_def)

lemma fold_fold_concat: "fold (fold f) xss s = fold f (concat xss) s"
  by (induction xss arbitrary: s) simp_all

lemma findStartEnd_concat:
  "findStartEnd g =
     (case fold scanCell (concat g) (None, None) of
        (Some s, Some e) \<Rightarrow> Inr (s, e)
      | _ \<Rightarrow> Inl MissingEndpoint)"
proof -
  have "(\<lambda>cells se. fold scanCell cells se) = fold scanCell" by (rule ext) simp
  then show ?thesis by (simp add: findStartEnd_def fold_fold_concat)
qed

lemma findStartEnd_Inl:
  "findStartEnd g = Inl err \<longleftrightarrow>
     err = MissingEndpoint \<and> (countType Start g = 0 \<or> countType End g = 0)"
proof -
  obtain s e where se: "fold scanCell (concat g) (None, None) = (s, e)" by force
  have "s = None \<longleftrightarrow> countType Start g = 0"
    using fold_scanCell_fst[of "concat g" "(None, None)"] se by (simp add: countType_0)
  moreover have "e = None \<longleftrightarrow> countType End g = 0"
    using fold_scanCell_snd[of "concat g" "(None, None)"] se by (simp add: countType_0)
  ultimately show ?thesis
    unfolding findStartEnd_concat se by (auto split: option.splits)
qed

declare bfs_loop.simps [simp del] dfs_loop.simps [simp del]

lemma forEach_error:
  assumes "forEach xs body s = Inl err"
  obtains x t where "x \<in> set xs" and "body x t = Inl err"
  using assms
  by (induction xs arbitrary: s) (auto split: sum.splits)

lemma matGet_error: "matGet m r c = Inl err \<Longrightarrow> err = TypeError"
  by (simp add: matGet_def split: if_splits)

lemma matSet_error: "matSet m r c = Inl err \<Longrightarrow> err = TypeError"
  by (simp add: matSet_def split: if_splits)

lemma getNeighbors_error: "getNeighbors g p = Inl err \<Longrightarrow> err = TypeError"
  by (auto simp: getNeighbors_def neighborStep_def Let_def split: if_splits elim!: forEach_error)

lemma bfsVisit_error: "bfsVisit cur n s = Inl err \<Longrightarrow> err = TypeError"
  by (auto simp: bfsVisit_def split: prod.splits sum.splits bool.splits
      dest: matGet_error matSet_error)

lemma dfsPush_error: "dfsPush cur v n s = Inl err \<Longrightarrow> err = TypeError"
  by (auto simp: dfsPush_def split: prod.splits sum.splits bool.splits dest: matGet_error)

lemma bfs_loop_error: "bfs_loop g e st = Inl err \<Longrightarrow> err = TypeError"
proof (induction g e st rule: bfs_loop.induct)
  case (1 grid e visited parent order)
  then show ?case by (simp add: bfs_loop.simps)
next
  case (2 grid e cur q visited parent order)
  note [simp] = bfs_loop.simps
  show ?case
  proof (cases "row cur = row e \<and> col cur = col e")
    case True
    with 2 show ?thesis by simp
  next
    case False
    show ?thesis
    proof (cases "getNeighbors grid cur")
      case (Inl a)
      with 2 False show ?thesis by (auto dest: getNeighbors_error)
    next
      case (Inr ns)
      show ?thesis
      proof (cases "forEach ns (bfsVisit cur) (visited, parent, q)")
        case (Inl a)
        with 2 False Inr show ?thesis by (auto elim!: forEach_error dest: bfsVisit_error)
      next
        case r: (Inr t)
        obtain v' p' q' where t: "t = (v', p', q')" by (cases t) auto
        from "2.prems" False Inr r t
        have "bfs_loop grid e (q', v', p', order @ [cur]) = Inl err" by simp
        then show ?thesis
          using "2.IH"[OF False Inr] r t by simp
      qed
    qed
  qed
qed

lemma dfs_loop_error: "dfs_loop g e st = Inl err \<Longrightarrow> err = TypeError"
proof (induction g e st rule: dfs_loop.induct)
  case (1 grid e stack visited parent order)
  note [simp] = dfs_loop.simps[of grid e stack visited parent order]
  show ?case
  proof (cases "stack = []")
    case True
    with "1.prems" show ?thesis by (simp add: dfs_loop.simps)
  next
    case ne: False
    let ?cur = "last stack"
    show ?thesis
    proof (cases "matGet visited (row ?cur) (col ?cur)")
      case (Inl a)
      with "1.prems" ne show ?thesis by (auto simp: Let_def dest: matGet_error)
    next
      case g: (Inr b)
      show ?thesis
      proof (cases b)
        case True
        with "1.prems" ne g have "dfs_loop grid e (butlast stack, visited, parent, order) = Inl err"
          by (simp add: Let_def)
        then show ?thesis using "1.IH"(1)[OF ne refl refl g] True by simp
      next
        case nb: False
        show ?thesis
        proof (cases "matSet visited (row ?cur) (col ?cur)")
          case (Inl a)
          with "1.prems" ne g nb show ?thesis by (auto simp: Let_def dest: matSet_error)
        next
          case s: (Inr v1)
          show ?thesis
          proof (cases "row ?cur = row e \<and> col ?cur = col e")
            case True
            with "1.prems" ne g nb s show ?thesis by (simp add: Let_def)
          next
            case ncur: False
            show ?thesis
            proof (cases "getNeighbors grid ?cur")
              case (Inl a)
              with "1.prems" ne g nb s ncur show ?thesis
                by (auto simp: Let_def dest: getNeighbors_error)
            next
              case n: (Inr ns)
              show ?thesis
              proof (cases "forEach (rev ns) (dfsPush ?cur v1) (parent, butlast stack)")
                case (Inl a)
                with "1.prems" ne g nb s ncur n show ?thesis
                  by (auto simp: Let_def elim!: forEach_error dest: dfsPush_error)
              next
                case r: (Inr t)
                obtain p' s' where t: "t = (p', s')" by (cases t) auto
                from "1.prems" ne g nb s ncur n r t
                have "dfs_loop grid e (s', v1, p', order @ [?cur]) = Inl err"
                  by (simp add: Let_def)
                then show ?thesis
                  using "1.IH"(2)[OF ne refl refl g _ s ncur n] nb r t by simp
              qed
            qed
          qed
        qed
      qed
    qed
  qed
qed

lemma reconstruct_no_error: "reconstruct parent e order \<noteq> Some (Inl err)"
  by (simp add: reconstruct_def split: option.splits)

lemma bfs_error_iff:
  "bfs g = Some (Inl MissingEndpoint) \<longleftrightarrow> countType Start g = 0 \<or> countType End g = 0"
proof (cases "findStartEnd g")
  case (Inl a)
  then show ?thesis using findStartEnd_Inl[of g a] by (simp add: bfs_def)
next
  case (Inr se)
  obtain s e where se: "se = (s, e)" by (cases se) auto
  have "\<not> (countType Start g = 0 \<or> countType End g = 0)"
    using findStartEnd_Inl[of g MissingEndpoint] Inr by simp
  moreover have "bfs g \<noteq> Some (Inl MissingEndpoint)"
    using Inr se
    by (auto simp: bfs_def Let_def reconstruct_no_error split: sum.splits prod.splits
        dest: matSet_error bfs_loop_error)
  ultimately show ?thesis by simp
qed

lemma dfs_error_iff:
  "dfs g = Some (Inl MissingEndpoint) \<longleftrightarrow> countType Start g = 0 \<or> countType End g = 0"
proof (cases "findStartEnd g")
  case (Inl a)
  then show ?thesis using findStartEnd_Inl[of g a] by (simp add: dfs_def)
next
  case (Inr se)
  obtain s e where se: "se = (s, e)" by (cases se) auto
  have "\<not> (countType Start g = 0 \<or> countType End g = 0)"
    using findStartEnd_Inl[of g MissingEndpoint] Inr by simp
  moreover have "dfs g \<noteq> Some (Inl MissingEndpoint)"
    using Inr se
    by (auto simp: dfs_def Let_def reconstruct_no_error split: sum.splits prod.splits
        dest: dfs_loop_error)
  ultimately show ?thesis by simp
qed

text \<open>
  Claim C2, as amended. \<^verbatim>\<open>findStartEnd\<close> throws exactly when no cell has type \<open>Start\<close> or no
  cell has type \<open>End\<close>, and no later step of \<^verbatim>\<open>bfs\<close> or \<^verbatim>\<open>dfs\<close> raises that error: each
  solver ends with the missing-endpoint error if and only if the grid lacks a start cell
  or lacks an end cell. So a grid with several start cells, or several end cells, that
  has at least one of each does not end with that error.
\<close>

theorem missing_endpoint_iff:
  "(bfs g = Some (Inl MissingEndpoint) \<longleftrightarrow> countType Start g = 0 \<or> countType End g = 0) \<and>
   (dfs g = Some (Inl MissingEndpoint) \<longleftrightarrow> countType Start g = 0 \<or> countType End g = 0)"
  using bfs_error_iff dfs_error_iff by simp

theorem missing_endpoint_iff_witness:
  "countType Start noStartGrid = 0 \<and>
   bfs noStartGrid = Some (Inl MissingEndpoint) \<and> dfs noStartGrid = Some (Inl MissingEndpoint)"
  using missing_endpoint_iff[of noStartGrid]
  by (simp add: countType_def noStartGrid_def)

text \<open>
  Claim C2 as stated fails: a grid with two start cells and one end cell is solved, from
  the second start cell, by both solvers.
\<close>

theorem two_starts_counterexample:
  "countType Start twoStartsGrid = 2 \<and> countType End twoStartsGrid = 1 \<and>
   bfs twoStartsGrid =
     Some (Inr \<lparr>path = Some [\<lparr>row = 0, col = 1\<rparr>, \<lparr>row = 0, col = 2\<rparr>],
                visitedOrder = [\<lparr>row = 0, col = 1\<rparr>, \<lparr>row = 0, col = 0\<rparr>, \<lparr>row = 0, col = 2\<rparr>]\<rparr>) \<and>
   dfs twoStartsGrid =
     Some (Inr \<lparr>path = Some [\<lparr>row = 0, col = 1\<rparr>, \<lparr>row = 0, col = 2\<rparr>],
                visitedOrder = [\<lparr>row = 0, col = 1\<rparr>, \<lparr>row = 0, col = 0\<rparr>, \<lparr>row = 0, col = 2\<rparr>]\<rparr>)"
  by code_simp

subsection \<open>Cell types only move forward\<close>

text \<open>
  The ordering passage, visited, path/pathHead of the animated cell types; walls, start
  and end are outside it.
\<close>

definition stage :: "CellType \<Rightarrow> nat" where
  "stage t = (case t of Passage \<Rightarrow> 0 | Visited \<Rightarrow> 1 | Path \<Rightarrow> 2 | PathHead \<Rightarrow> 2 | _ \<Rightarrow> 0)"

definition animated :: "CellType \<Rightarrow> bool" where
  "animated t = (t = Passage \<or> t = Visited \<or> t = Path \<or> t = PathHead)"

text \<open>What one grid update may do to one cell.\<close>

definition cellStepOk :: "Cell \<Rightarrow> Cell \<Rightarrow> bool" where
  "cellStepOk c c' =
     (((type c = Start \<or> type c = End) \<longrightarrow> c' = c) \<and>
      ((type c = Path \<or> type c = PathHead) \<longrightarrow> type c' \<noteq> Visited) \<and>
      (animated (type c) \<longrightarrow> animated (type c') \<and> stage (type c) \<le> stage (type c')) \<and>
      (type c' = Start \<or> type c' = End \<longrightarrow> c' = c))"

lemma visitedCell_ok: "cellStepOk c (visitedCell vs c)"
  by (cases "type c") (auto simp: cellStepOk_def visitedCell_def animated_def stage_def)

lemma pathCell_ok: "cellStepOk c (pathCell k i c)"
  by (cases "type c")
     (auto simp: cellStepOk_def pathCell_def animated_def stage_def split: option.splits)

lemma finalizeCell_ok: "cellStepOk c (finalizeCell c)"
  by (cases "type c") (auto simp: cellStepOk_def finalizeCell_def animated_def stage_def)

lemma grid_setTimeout [simp]: "grid (snd (setTimeout cb d st)) = grid st"
  by (simp add: setTimeout_def)

lemma fire_grid:
  "\<exists>f. grid (fire cb st) = map (map f) (grid st) \<and> (\<forall>c. cellStepOk c (f c))"
proof (cases cb)
  case (VisitedCb pos i vlen)
  then show ?thesis
    by (intro exI[of _ "visitedCell (insert (posKey pos) (visitedSet st))"])
       (simp add: Let_def visitedCell_ok)
next
  case (PathCb k i plen d alg)
  then show ?thesis
    by (intro exI[of _ "pathCell k i"]) (simp add: Let_def pathCell_ok)
next
  case (FinalizeCb alg)
  then show ?thesis
    by (intro exI[of _ finalizeCell]) (simp add: finalizeCell_ok)
qed

text \<open>
  Claim C7. Every callback of the animation (visited step, path step, finalize step)
  maps the grid cell by cell, keeping its shape: a start or end cell is left as it is
  and none is created, a path or path-head cell never becomes visited, and a cell of an
  animated type keeps or advances its stage in the ordering passage, visited,
  path/pathHead.
\<close>

theorem animation_step_monotone:
  "length (grid (fire cb st)) = length (grid st) \<and>
   (\<forall>i < length (grid st).
      length (grid (fire cb st) ! i) = length (grid st ! i) \<and>
      (\<forall>j < length (grid st ! i). cellStepOk (grid st ! i ! j) (grid (fire cb st) ! i ! j)))"
proof -
  obtain f where f: "grid (fire cb st) = map (map f) (grid st)" and ok: "\<And>c. cellStepOk c (f c)"
    using fire_grid[of cb st] by blast
  show ?thesis unfolding f by (simp add: ok)
qed

definition headGrid :: Grid where
  "headGrid = [[\<lparr>row = 0, col = 0, type = Start\<rparr>, \<lparr>row = 0, col = 1, type = PathHead\<rparr>,
          \<lparr>row = 0, col = 2, type = End\<rparr>]]"

definition idle :: "Grid \<Rightarrow> Algorithm \<Rightarrow> Speed \<Rightarrow> AppState" where
  "idle g a s = \<lparr>grid = g, algorithm = a, speed = s, status = ''Maze ready'', pathLength = None,
     visitedCount = None, isAnimating = False, timeouts = [], visitedSet = {}, timers = [],
     now = 0, nextId = 0\<rparr>"

theorem animation_step_monotone_witness:
  "cellStepOk (headGrid ! 0 ! 1)
     (grid (fire (VisitedCb \<lparr>row = 0, col = 1\<rparr> 0 3) (idle headGrid AlgBfs Fast)) ! 0 ! 1) \<and>
   grid (fire (VisitedCb \<lparr>row = 0, col = 1\<rparr> 0 3) (idle headGrid AlgBfs Fast)) = headGrid"
  using animation_step_monotone[of "VisitedCb \<lparr>row = 0, col = 1\<rparr> 0 3" "idle headGrid AlgBfs Fast"]
  by (simp add: headGrid_def idle_def visitedCell_def posKey_def cellStepOk_def animated_def
      stage_def)

lemma fold_clearTimeout:
  "fold clearTimeout ids st = st\<lparr>timers := filter (\<lambda>t. fst t \<notin> set ids) (timers st)\<rparr>"
proof (induction ids arbitrary: st)
  case Nil
  then show ?case by simp
next
  case (Cons a ids)
  have "fold clearTimeout (a # ids) st = fold clearTimeout ids (clearTimeout a st)"
    by simp
  also have "\<dots> = (clearTimeout a st)
      \<lparr>timers := filter (\<lambda>t. fst t \<notin> set ids) (timers (clearTimeout a st))\<rparr>"
    by (rule Cons.IH)
  also have "\<dots> = st\<lparr>timers := filter (\<lambda>t. fst t \<notin> set (a # ids)) (timers st)\<rparr>"
    by (simp add: clearTimeout_def conj_commute)
  finally show ?case .
qed

lemma clearAnimations_eq:
  "clearAnimations st =
     st\<lparr>timers := filter (\<lambda>t. fst t \<notin> set (timeouts st)) (timers st), timeouts := []\<rparr>"
  by (simp add: clearAnimations_def fold_clearTimeout)

lemma clearCell_type:
  "type (clearCell c) \<noteq> Visited \<and> type (clearCell c) \<noteq> Path \<and> type (clearCell c) \<noteq> PathHead"
  by (simp add: clearCell_def)

definition unreachableGrid :: Grid where
  "unreachableGrid =
     [[\<lparr>row = 0, col = 0, type = Start\<rparr>, \<lparr>row = 0, col = 1, type = Visited\<rparr>,
       \<lparr>row = 0, col = 2, type = Wall\<rparr>, \<lparr>row = 0, col = 3, type = End\<rparr>]]"

text \<open>
  Claim C10. When a solve is requested (no animation running) and the solver returns no
  path, \<^verbatim>\<open>handleSolve\<close> returns without a call of \<^verbatim>\<open>setTimeout\<close>: no timer is added (the
  pending ones are those left by \<^verbatim>\<open>clearAnimations\<close>, the next timer id is unchanged), the
  grid is the cleared grid, without a visited, path or path-head cell, and
  \<open>isAnimating\<close> stays false; only the visited count and the status are set.
\<close>

theorem no_path_no_animation:
  assumes "\<not> isAnimating st"
    and "solverOf (algorithm st) (grid st) = Some (Inr res)"
    and "path res = None"
  shows "\<exists>st'. handleSolve st = Some (Inr st') \<and>
           timers st' = filter (\<lambda>t. fst t \<notin> set (timeouts st)) (timers st) \<and>
           nextId st' = nextId st \<and> timeouts st' = [] \<and>
           isAnimating st' = False \<and>
           grid st' = map (map clearCell) (grid st) \<and>
           (\<forall>cells \<in> set (grid st'). \<forall>c \<in> set cells.
              type c \<noteq> Visited \<and> type c \<noteq> Path \<and> type c \<noteq> PathHead) \<and>
           pathLength st' = None \<and>
           visitedCount st' = Some (length (visitedOrder res)) \<and>
           status st' = ''No path found''"
  using assms
  by (auto simp: handleSolve_def Let_def clearPath_def clearAnimations_eq clearCell_type)

theorem no_path_no_animation_witness:
  "handleSolve (idle unreachableGrid AlgBfs Fast) =
     Some (Inr ((idle unreachableGrid AlgBfs Fast)
       \<lparr>grid := [[\<lparr>row = 0, col = 0, type = Start\<rparr>, \<lparr>row = 0, col = 1, type = Passage\<rparr>,
                   \<lparr>row = 0, col = 2, type = Wall\<rparr>, \<lparr>row = 0, col = 3, type = End\<rparr>]],
        status := ''No path found'', visitedCount := Some 2\<rparr>))"
proof -
  have s: "solverOf AlgBfs unreachableGrid =
      Some (Inr \<lparr>path = None, visitedOrder = [\<lparr>row = 0, col = 0\<rparr>, \<lparr>row = 0, col = 1\<rparr>]\<rparr>)"
    by code_simp
  have i: "\<not> isAnimating (idle unreachableGrid AlgBfs Fast)"
    by (simp add: idle_def)
  obtain st' where "handleSolve (idle unreachableGrid AlgBfs Fast) = Some (Inr st')"
    using no_path_no_animation[OF i, of "\<lparr>path = None, visitedOrder = [\<lparr>row = 0, col = 0\<rparr>, \<lparr>row = 0, col = 1\<rparr>]\<rparr>"] s
    by (auto simp: idle_def)
  then show ?thesis
    using s by (simp add: handleSolve_def idle_def Let_def clearPath_def clearAnimations_eq
        clearCell_def unreachableGrid_def eval_nat_numeral)
qed

subsection \<open>Scheduling\<close>

lemma schedule_fields [simp]:
  "timers (schedule cb dl st) = timers st @ [(nextId st, now st + dl, cb)]"
  "nextId (schedule cb dl st) = nextId st + 1"
  "now (schedule cb dl st) = now st"
  "isAnimating (schedule cb dl st) = isAnimating st"
  "grid (schedule cb dl st) = grid st"
  by (simp_all add: schedule_def setTimeout_def)

definition timersOk :: "AppState \<Rightarrow> bool" where
  "timersOk st = (distinct (map fst (timers st)) \<and> (\<forall>t \<in> set (timers st). fst t < nextId st))"

lemma timersOk_schedule: "timersOk st \<Longrightarrow> timersOk (schedule cb dl st)"
  by (auto simp: timersOk_def)

lemma fold_schedule:
  fixes f :: "nat \<Rightarrow> 'a \<Rightarrow> Callback"
  assumes "timersOk st"
  shows "timersOk (fold (\<lambda>(i, x). schedule (f i x) (dl i)) (enumerate k xs) st) \<and>
         map snd (timers (fold (\<lambda>(i, x). schedule (f i x) (dl i)) (enumerate k xs) st)) =
           map snd (timers st) @ map (\<lambda>(i, x). (now st + dl i, f i x)) (enumerate k xs) \<and>
         now (fold (\<lambda>(i, x). schedule (f i x) (dl i)) (enumerate k xs) st) = now st \<and>
         isAnimating (fold (\<lambda>(i, x). schedule (f i x) (dl i)) (enumerate k xs) st) = isAnimating st"
  using assms
proof (induction xs arbitrary: k st)
  case Nil
  then show ?case by simp
next
  case (Cons x xs)
  have ok: "timersOk (schedule (f k x) (dl k) st)"
    using Cons.prems by (rule timersOk_schedule)
  show ?case
    using Cons.IH[OF ok, of "Suc k"] by simp
qed

subsection \<open>Running timers\<close>

lemma nextTimer_mem: "nextTimer ts = Some u \<Longrightarrow> u \<in> set ts"
  by (induction ts arbitrary: u) (auto split: option.splits if_splits)

lemma nextTimer_head:
  assumes "\<forall>u \<in> set ts. fst (snd t) \<le> fst (snd u)"
  shows "nextTimer (t # ts) = Some t"
  using assms nextTimer_mem[of ts] by (auto split: option.splits)

lemma runTimer_head:
  assumes "timers st = (ident, due, cb) # ts"
    and "\<forall>u \<in> set ts. due \<le> fst (snd u)"
    and "ident \<notin> fst ` set ts"
  shows "runTimer st = Some ((due, cb), fire cb (st\<lparr>timers := ts, now := due\<rparr>))"
proof -
  have "nextTimer (timers st) = Some (ident, due, cb)"
    unfolding assms(1) using assms(2) by (intro nextTimer_head) simp
  moreover have "filter (\<lambda>t. fst t \<noteq> ident) (timers st) = ts"
    unfolding assms(1) using assms(3) by (auto simp: filter_id_conv)
  ultimately show ?thesis by (simp add: runTimer_def)
qed

fun quiet :: "Callback \<Rightarrow> bool" where
  "quiet (VisitedCb pos i vlen) = True"
| "quiet (PathCb k i plen d alg) = (int i \<noteq> int plen - 1)"
| "quiet (FinalizeCb alg) = False"

lemma fire_quiet:
  assumes "quiet cb"
  shows "timers (fire cb st) = timers st \<and> isAnimating (fire cb st) = isAnimating st \<and>
         now (fire cb st) = now st \<and> nextId (fire cb st) = nextId st"
  using assms by (cases cb) (auto simp: Let_def)

definition dueSorted :: "(nat \<times> nat \<times> Callback) list \<Rightarrow> bool" where
  "dueSorted ts = sorted_wrt (\<lambda>a b. fst (snd a) \<le> fst (snd b)) ts"

lemma run_quiet:
  assumes "timers st = ts @ rest" and "dueSorted (ts @ rest)" and "distinct (map fst (ts @ rest))"
    and "\<forall>t \<in> set ts. quiet (snd (snd t))"
  shows "\<exists>st'. runTimers (length ts) st = (map snd ts, st') \<and> timers st' = rest \<and>
           isAnimating st' = isAnimating st \<and> nextId st' = nextId st"
  using assms
proof (induction ts arbitrary: st)
  case Nil
  then show ?case by simp
next
  case (Cons t ts)
  obtain ident due cb where t: "t = (ident, due, cb)" by (cases t) auto
  let ?st1 = "fire cb (st\<lparr>timers := ts @ rest, now := due\<rparr>)"
  have r: "runTimer st = Some ((due, cb), ?st1)"
    using Cons.prems(1,2,3) unfolding t dueSorted_def
    by (intro runTimer_head) (auto simp: image_iff)
  have p: "quiet cb" using Cons.prems(4) t by simp
  have f: "timers ?st1 = ts @ rest" "isAnimating ?st1 = isAnimating st" "nextId ?st1 = nextId st"
    using fire_quiet[OF p, of "st\<lparr>timers := ts @ rest, now := due\<rparr>"] by simp_all
  obtain st' where "runTimers (length ts) ?st1 = (map snd ts, st')" "timers st' = rest"
    "isAnimating st' = isAnimating ?st1" "nextId st' = nextId ?st1"
    using Cons.IH[OF f(1)] Cons.prems(2,3,4) unfolding dueSorted_def by auto
  then show ?case using r f t by simp
qed

lemma run_quiet_animating:
  assumes "timers st = ts" and "dueSorted ts" and "distinct (map fst ts)"
    and "\<forall>t \<in> set (take k ts). quiet (snd (snd t))" and "k \<le> length ts"
  shows "isAnimating (snd (runTimers k st)) = isAnimating st"
proof -
  have a: "timers st = take k ts @ drop k ts" using assms(1) by simp
  have "\<exists>st'. runTimers (length (take k ts)) st = (map snd (take k ts), st') \<and>
      timers st' = drop k ts \<and> isAnimating st' = isAnimating st \<and> nextId st' = nextId st"
    using assms(2,3,4) by (intro run_quiet[OF a]) simp_all
  then show ?thesis using assms(5) by auto
qed

lemma runTimers_add:
  "runTimers (m + n) st =
     (case runTimers m st of (e1, s1) \<Rightarrow> case runTimers n s1 of (e2, s2) \<Rightarrow>
        if length e1 = m then (e1 @ e2, s2) else (e1, s1))"
proof (induction m arbitrary: st)
  case 0
  then show ?case by (simp split: prod.splits)
next
  case (Suc m)
  show ?case
  proof (cases "runTimer st")
    case None
    then show ?thesis by (simp split: prod.splits)
  next
    case (Some a)
    obtain ev st' where a: "a = (ev, st')" by (cases a) auto
    show ?thesis using Some a Suc[of st'] by (auto split: prod.splits)
  qed
qed

lemma buildPath_nonempty_aux:
  assumes "buildPath parent cur acc = Some r"
  shows "(cur \<noteq> None \<or> acc \<noteq> []) \<longrightarrow> r \<noteq> []"
  by (rule buildPath.raw_induct
        [where P = "\<lambda>parent cur acc r. (cur \<noteq> None \<or> acc \<noteq> []) \<longrightarrow> r \<noteq> []", OF _ assms])
     (auto split: option.splits)

lemma buildPath_nonempty:
  assumes "buildPath parent cur acc = Some r" and "cur \<noteq> None \<or> acc \<noteq> []"
  shows "r \<noteq> []"
  using assms buildPath_nonempty_aux by blast

lemma reconstruct_path_nonempty:
  assumes "reconstruct parent e order = Some (Inr res)" and "path res = Some p"
  shows "p \<noteq> []"
  using assms buildPath_nonempty[of parent "Some e" "[]"]
  by (auto simp: reconstruct_def split: if_splits option.splits)

lemma bfs_path_nonempty:
  assumes "bfs g = Some (Inr res)" and "path res = Some p"
  shows "p \<noteq> []"
  using assms
  by (auto simp: bfs_def Let_def split: sum.splits prod.splits if_splits
      dest: reconstruct_path_nonempty)

lemma dfs_path_nonempty:
  assumes "dfs g = Some (Inr res)" and "path res = Some p"
  shows "p \<noteq> []"
  using assms
  by (auto simp: dfs_def Let_def split: sum.splits prod.splits if_splits
      dest: reconstruct_path_nonempty)

lemma solver_path_nonempty:
  assumes "solverOf a g = Some (Inr res)" and "path res = Some p"
  shows "p \<noteq> []"
  using assms bfs_path_nonempty dfs_path_nonempty
  by (auto simp: solverOf_def split: if_splits)

lemma dueSorted_map_snd: "dueSorted ts \<longleftrightarrow> sorted (map fst (map snd ts))"
  by (simp add: dueSorted_def sorted_map sorted_wrt_map)

lemma sorted_affine: "sorted (map (\<lambda>i. (t0::nat) + d * i) [0..<n])"
  unfolding sorted_map
  by (rule sorted_wrt_mono_rel[of _ "(\<le>)"]) simp_all

definition visitedEvents :: "nat \<Rightarrow> nat \<Rightarrow> Position list \<Rightarrow> (nat \<times> Callback) list" where
  "visitedEvents t0 d vo =
     map (\<lambda>(i, pos). (t0 + d * i, VisitedCb pos i (length vo))) (enumerate 0 vo)"

definition pathEvents ::
  "nat \<Rightarrow> nat \<Rightarrow> nat \<Rightarrow> Algorithm \<Rightarrow> Position list \<Rightarrow> nat \<Rightarrow> (nat \<times> Callback) list" where
  "pathEvents t0 d v alg p n =
     map (\<lambda>(i, pos). (t0 + (d * v + d * i), PathCb (mkKeyToIndex p) i (length p) d alg))
       (enumerate 0 (take n p))"

lemma map_fst_visitedEvents:
  "map fst (visitedEvents t0 d vo) = map (\<lambda>i. t0 + d * i) [0..<length vo]"
proof -
  have "map fst (visitedEvents t0 d vo) = map ((\<lambda>i. t0 + d * i) \<circ> fst) (enumerate 0 vo)"
    by (simp add: visitedEvents_def case_prod_beta comp_def)
  also have "\<dots> = map (\<lambda>i. t0 + d * i) (map fst (enumerate 0 vo))"
    by (simp only: map_map)
  finally show ?thesis by (simp only: map_fst_enumerate add_0)
qed

lemma map_fst_pathEvents:
  "map fst (pathEvents t0 d v alg p n) =
     map (\<lambda>i. t0 + d * i) [v..<v + length (take n p)]"
proof -
  have "map fst (pathEvents t0 d v alg p n) =
      map ((\<lambda>i. t0 + d * (i + v)) \<circ> fst) (enumerate 0 (take n p))"
    by (simp add: pathEvents_def case_prod_beta comp_def distrib_left add.commute)
  also have "\<dots> = map (\<lambda>i. t0 + d * (i + v)) (map fst (enumerate 0 (take n p)))"
    by (simp only: map_map)
  also have "\<dots> = map (\<lambda>i. t0 + d * (i + v)) [0..<length (take n p)]"
    by (simp only: map_fst_enumerate add_0)
  also have "\<dots> = map (\<lambda>i. t0 + d * i) (map (\<lambda>i. i + v) [0..<length (take n p)])"
    by (simp only: map_map comp_def)
  also have "\<dots> = map (\<lambda>i. t0 + d * i) [v..<v + length (take n p)]"
    by (simp only: map_add_upt add.commute)
  finally show ?thesis .
qed

lemma events_sorted:
  "sorted (map fst (visitedEvents t0 d vo @ pathEvents t0 d (length vo) alg p n))"
proof -
  have "map fst (visitedEvents t0 d vo @ pathEvents t0 d (length vo) alg p n) =
      map (\<lambda>i. t0 + d * i) ([0..<length vo] @ [length vo..<length vo + length (take n p)])"
    by (simp only: map_append map_fst_visitedEvents map_fst_pathEvents)
  also have "[0..<length vo] @ [length vo..<length vo + length (take n p)] =
      [0..<length vo + length (take n p)]"
    by (simp add: upt_add_eq_append[symmetric])
  finally show ?thesis by (simp only: sorted_affine)
qed

lemma pathEvents_last:
  assumes "p \<noteq> []"
  shows "pathEvents t0 d v alg p (length p) =
           pathEvents t0 d v alg p (length p - 1) @
           [(t0 + (d * v + d * (length p - 1)),
             PathCb (mkKeyToIndex p) (length p - 1) (length p) d alg)]"
proof -
  have tk: "take (length p) p = take (length p - 1) p @ [last p]"
    using assms by (metis append_butlast_last_id butlast_conv_take order_refl take_all)
  have "enumerate 0 (take (length p - 1) p @ [last p]) =
      enumerate 0 (take (length p - 1) p) @ [(length p - 1, last p)]"
    using assms by (cases p) (simp_all add: enumerate_append_eq min_def)
  then have "enumerate 0 (take (length p) p) =
      enumerate 0 (take (length p - 1) p) @ [(length p - 1, last p)]"
    by (simp only: tk)
  then show ?thesis by (simp add: pathEvents_def)
qed

lemma pathEvents_quiet:
  assumes "ev \<in> set (pathEvents t0 d v alg p (length p - 1))"
  shows "quiet (snd ev)"
proof -
  from assms obtain i pos where "(i, pos) \<in> set (enumerate 0 (take (length p - 1) p))"
    and ev: "ev = (t0 + (d * v + d * i), PathCb (mkKeyToIndex p) i (length p) d alg)"
    by (auto simp: pathEvents_def)
  then have "i < length p - 1" by (auto simp: in_set_enumerate_eq)
  then show ?thesis using ev by auto
qed

lemma visitedEvents_quiet: "ev \<in> set (visitedEvents t0 d vo) \<Longrightarrow> quiet (snd ev)"
  by (auto simp: visitedEvents_def)

lemma animate_timers:
  assumes "timers st = []"
  shows "timersOk (animate vo p st) \<and>
         map snd (timers (animate vo p st)) =
           visitedEvents (now st) (baseDelayOf (speed st)) vo @
           pathEvents (now st) (baseDelayOf (speed st)) (length vo) (algorithm st) p (length p) \<and>
         now (animate vo p st) = now st \<and> isAnimating (animate vo p st) = isAnimating st"
proof -
  let ?d = "baseDelayOf (speed st)"
  let ?st1 = "st\<lparr>visitedSet := {}\<rparr>"
  let ?st2 = "fold (\<lambda>(i, pos). schedule (VisitedCb pos i (length vo)) (?d * i)) (enumerate 0 vo) ?st1"
  have ok1: "timersOk ?st1" using assms by (simp add: timersOk_def)
  note a = fold_schedule[OF ok1, of "\<lambda>i pos. VisitedCb pos i (length vo)" "\<lambda>i. ?d * i" 0 vo]
  from a have ok2: "timersOk ?st2" by simp
  note b = fold_schedule[OF ok2,
      of "\<lambda>i pos. PathCb (mkKeyToIndex p) i (length p) ?d (algorithm st)"
         "\<lambda>i. ?d * length vo + ?d * i" 0 p]
  have an: "animate vo p st =
      fold (\<lambda>(i, pos). schedule (PathCb (mkKeyToIndex p) i (length p) ?d (algorithm st))
                          (?d * length vo + ?d * i)) (enumerate 0 p) ?st2"
    by (simp add: animate_def Let_def)
  show ?thesis
    unfolding an using a b assms by (simp add: visitedEvents_def pathEvents_def)
qed

lemma map_snd_split:
  assumes "map snd ts = A @ [b]"
  obtains ts' t where "ts = ts' @ [t]" and "map snd ts' = A" and "snd t = b"
  using assms by (auto simp: map_eq_append_conv)

lemma animate_run:
  fixes vo p :: "Position list" and st :: AppState
  assumes T: "timers st = []" and A: "isAnimating st" and P: "p \<noteq> []"
  defines "d \<equiv> baseDelayOf (speed st)"
  defines "n \<equiv> length vo + length p"
  defines "fin \<equiv> (now st + (d * length vo + d * (length p - 1)) + d * 2, FinalizeCb (algorithm st))"
  shows "fst (runTimers (n + 1) (animate vo p st)) =
           visitedEvents (now st) d vo @
           pathEvents (now st) d (length vo) (algorithm st) p (length p) @ [fin]"
    and "\<forall>k \<le> n. isAnimating (snd (runTimers k (animate vo p st)))"
    and "\<not> isAnimating (snd (runTimers (n + 1) (animate vo p st)))"
    and "timers (snd (runTimers (n + 1) (animate vo p st))) = []"
proof -
  let ?s = "animate vo p st"
  let ?V = "visitedEvents (now st) d vo"
  let ?Pq = "pathEvents (now st) d (length vo) (algorithm st) p (length p - 1)"
  let ?due = "now st + (d * length vo + d * (length p - 1))"
  let ?cb = "PathCb (mkKeyToIndex p) (length p - 1) (length p) d (algorithm st)"
  note at = animate_timers[OF T, of vo p, folded d_def]
  have ms: "map snd (timers ?s) = (?V @ ?Pq) @ [(?due, ?cb)]"
    using at pathEvents_last[OF P, of "now st" d "length vo" "algorithm st"] by simp
  obtain ts t where ts: "timers ?s = ts @ [t]" and mts: "map snd ts = ?V @ ?Pq"
    and t: "snd t = (?due, ?cb)"
    using ms by (rule map_snd_split)
  have len: "length ts = n - 1"
  proof -
    have "length (map snd (timers ?s)) = n"
      using at by (simp add: visitedEvents_def pathEvents_def n_def)
    then show ?thesis using ts by simp
  qed
  have npos: "n - 1 + 1 = n" using P by (simp add: n_def)
  have sorted: "dueSorted (ts @ [t])"
    unfolding ts[symmetric] dueSorted_map_snd using at events_sorted[of "now st" d vo "algorithm st" p "length p"]
    by simp
  have dist: "distinct (map fst (ts @ [t]))"
    using at ts by (simp add: timersOk_def)
  have quiet: "\<forall>u \<in> set ts. quiet (snd (snd u))"
  proof
    fix u assume "u \<in> set ts"
    then have "snd u \<in> set (?V @ ?Pq)" unfolding mts[symmetric] by simp
    then show "quiet (snd (snd u))"
      using visitedEvents_quiet[of "snd u"] pathEvents_quiet[of "snd u"] by auto
  qed
  obtain s1 where r1: "runTimers (length ts) ?s = (map snd ts, s1)" and t1: "timers s1 = [t]"
    and a1: "isAnimating s1 = isAnimating ?s" and n1: "nextId s1 = nextId ?s"
    using run_quiet[OF ts sorted dist quiet] by blast
  obtain ident where tid: "t = (ident, ?due, ?cb)" using t by (cases t) auto
  let ?s1' = "s1\<lparr>timers := [], now := ?due\<rparr>"
  let ?s2 = "fire ?cb ?s1'"
  have r2: "runTimer s1 = Some ((?due, ?cb), ?s2)"
    using t1 tid by (intro runTimer_head) simp_all
  have lastp: "int (length p - 1) = int (length p) - 1" using P by (cases p) simp_all
  have s2: "timers ?s2 = [(nextId s1, ?due + d * 2, FinalizeCb (algorithm st))]"
    "isAnimating ?s2 = isAnimating s1"
    using lastp by (simp_all add: Let_def setTimeout_def)
  let ?s3 = "fire (FinalizeCb (algorithm st)) (?s2\<lparr>timers := [], now := ?due + d * 2\<rparr>)"
  have r3: "runTimer ?s2 = Some ((?due + d * 2, FinalizeCb (algorithm st)), ?s3)"
    using s2 by (intro runTimer_head) simp_all
  have run2: "runTimers 2 s1 = ([(?due, ?cb), fin], ?s3)"
    using r2 r3 by (simp add: numeral_2_eq_2 fin_def)
  have run1: "runTimers 1 s1 = ([(?due, ?cb)], ?s2)"
    using r2 by simp
  have total: "runTimers (n + 1) ?s = (map snd ts @ [(?due, ?cb), fin], ?s3)"
  proof -
    have "n + 1 = length ts + 2" using len npos by simp
    then show ?thesis using runTimers_add[of "length ts" 2 ?s] r1 run2 by simp
  qed
  show "fst (runTimers (n + 1) ?s) = ?V @
           pathEvents (now st) d (length vo) (algorithm st) p (length p) @ [fin]"
    using total mts pathEvents_last[OF P, of "now st" d "length vo" "algorithm st"] by simp
  show "\<not> isAnimating (snd (runTimers (n + 1) ?s))" using total by simp
  show "timers (snd (runTimers (n + 1) ?s)) = []" using total by simp
  have anim: "isAnimating ?s" using at A by simp
  show "\<forall>k \<le> n. isAnimating (snd (runTimers k ?s))"
  proof (intro allI impI)
    fix k assume k: "k \<le> n"
    show "isAnimating (snd (runTimers k ?s))"
    proof (cases "k \<le> length ts")
      case True
      have "isAnimating (snd (runTimers k ?s)) = isAnimating ?s"
      proof (rule run_quiet_animating[OF ts sorted dist])
        show "\<forall>u \<in> set (take k (ts @ [t])). quiet (snd (snd u))"
          using quiet True by (auto dest: in_set_takeD)
        show "k \<le> length (ts @ [t])" using True by simp
      qed
      then show ?thesis using anim by simp
    next
      case False
      then have "k = length ts + 1" using k len npos by simp
      then have "runTimers k ?s = (map snd ts @ [(?due, ?cb)], ?s2)"
        using runTimers_add[of "length ts" 1 ?s] r1 run1 by simp
      then show ?thesis using s2 a1 anim by simp
    qed
  qed
qed

lemma clearPath_fields:
  assumes "\<not> isAnimating st"
  shows "timers (clearPath st) = filter (\<lambda>t. fst t \<notin> set (timeouts st)) (timers st)"
    and "now (clearPath st) = now st" and "speed (clearPath st) = speed st"
    and "algorithm (clearPath st) = algorithm st" and "isAnimating (clearPath st) = False"
  using assms by (simp_all add: clearPath_def clearAnimations_eq)

text \<open>
  Claim C8. When \<^verbatim>\<open>handleSolve\<close> starts on an idle component at time \<open>now st\<close> and the solver
  returns \<open>V\<close> visited positions and a path of \<open>P\<close> positions, then with base delay \<open>d\<close>
  the timer events that follow are exactly: the visited step of index \<open>i\<close> at \<open>i * d\<close>,
  the path step of index \<open>i\<close> at \<open>V * d + i * d\<close>, and the finalize step \<open>2 * d\<close> after the
  last path step; \<open>isAnimating\<close> holds from the return of \<^verbatim>\<open>handleSolve\<close> through the first
  \<open>V + P\<close> events and is false after the finalize step, when no timer is left. The
  witness is the scenario \<open>V = 3\<close>, \<open>P = 2\<close>, \<open>d = 5\<close>: events at 0, 5, 10, 15, 20 and 30.
\<close>

theorem animation_schedule:
  fixes st :: AppState and res :: SolveResult and p :: "Position list"
  defines "d \<equiv> baseDelayOf (speed st)"
  defines "V \<equiv> length (visitedOrder res)"
  defines "P \<equiv> length p"
  assumes "\<not> isAnimating st" and "timers st = []"
    and "solverOf (algorithm st) (grid st) = Some (Inr res)" and "path res = Some p"
  shows "\<exists>st'. handleSolve st = Some (Inr st') \<and> isAnimating st' \<and>
           fst (runTimers (V + P + 1) st') =
             visitedEvents (now st) d (visitedOrder res) @
             pathEvents (now st) d V (algorithm st) p P @
             [(now st + (d * V + d * (P - 1)) + d * 2, FinalizeCb (algorithm st))] \<and>
           (\<forall>k \<le> V + P. isAnimating (snd (runTimers k st'))) \<and>
           \<not> isAnimating (snd (runTimers (V + P + 1) st')) \<and>
           timers (snd (runTimers (V + P + 1) st')) = []"
proof -
  let ?st1 = "clearPath (clearAnimations st)"
  let ?st5 = "?st1\<lparr>status := ''Solving maze...'', visitedCount := Some V,
                 pathLength := Some P, isAnimating := True\<rparr>"
  let ?st' = "animate (visitedOrder res) p ?st5"
  have na: "\<not> isAnimating (clearAnimations st)" using assms(4) by (simp add: clearAnimations_eq)
  have hs: "handleSolve st = Some (Inr ?st')"
    using assms(4,6,7) by (simp add: handleSolve_def Let_def V_def P_def)
  have f: "timers ?st5 = []" "isAnimating ?st5" "now ?st5 = now st" "speed ?st5 = speed st"
    "algorithm ?st5 = algorithm st"
    using clearPath_fields[OF na] assms(5) by (simp_all add: clearAnimations_eq)
  have ne: "p \<noteq> []" using assms(6,7) by (rule solver_path_nonempty)
  note r = animate_run[OF f(1,2) ne, of "visitedOrder res", unfolded f(3,4,5), folded d_def V_def P_def]
  have "isAnimating ?st'" using r(2) by (auto dest: spec[of _ 0])
  then show ?thesis using hs r by (intro exI[of _ ?st']) simp
qed

definition scenarioGrid :: Grid where
  "scenarioGrid =
     [[\<lparr>row = 0, col = 0, type = Passage\<rparr>, \<lparr>row = 0, col = 1, type = Start\<rparr>,
       \<lparr>row = 0, col = 2, type = End\<rparr>]]"

theorem animation_schedule_witness:
  "\<exists>st'. handleSolve (idle scenarioGrid AlgBfs Fast) = Some (Inr st') \<and>
     visitedCount st' = Some 3 \<and> pathLength st' = Some 2 \<and>
     map fst (fst (runTimers 6 st')) = [0, 5, 10, 15, 20, 30] \<and>
     isAnimating (snd (runTimers 5 st')) \<and> \<not> isAnimating (snd (runTimers 6 st'))"
proof -
  let ?res = "\<lparr>path = Some [\<lparr>row = 0, col = 1\<rparr>, \<lparr>row = 0, col = 2\<rparr>],
     visitedOrder = [\<lparr>row = 0, col = 1\<rparr>, \<lparr>row = 0, col = 0\<rparr>, \<lparr>row = 0, col = 2\<rparr>]\<rparr>"
  let ?st = "idle scenarioGrid AlgBfs Fast"
  have s: "solverOf AlgBfs scenarioGrid = Some (Inr ?res)"
    by code_simp
  have h: "\<not> isAnimating ?st" "timers ?st = []"
    "solverOf (algorithm ?st) (grid ?st) = Some (Inr ?res)"
    "path ?res = Some [\<lparr>row = 0, col = 1\<rparr>, \<lparr>row = 0, col = 2\<rparr>]"
    using s by (simp_all add: idle_def)
  let ?n = "length (visitedOrder ?res) + length [\<lparr>row = 0, col = 1\<rparr>, \<lparr>row = 0, col = 2\<rparr>]"
  from animation_schedule[OF h] obtain st' where st': "handleSolve ?st = Some (Inr st')"
    and ev: "fst (runTimers (?n + 1) st') =
       visitedEvents (now ?st) (baseDelayOf (speed ?st)) (visitedOrder ?res) @
       pathEvents (now ?st) (baseDelayOf (speed ?st)) (length (visitedOrder ?res))
         (algorithm ?st) [\<lparr>row = 0, col = 1\<rparr>, \<lparr>row = 0, col = 2\<rparr>]
         (length [\<lparr>row = 0, col = 1\<rparr>, \<lparr>row = 0, col = 2\<rparr>]) @
       [(now ?st + (baseDelayOf (speed ?st) * length (visitedOrder ?res) +
           baseDelayOf (speed ?st) * (length [\<lparr>row = 0, col = 1\<rparr>, \<lparr>row = 0, col = 2\<rparr>] - 1)) +
           baseDelayOf (speed ?st) * 2, FinalizeCb (algorithm ?st))]"
    and an: "\<forall>k \<le> ?n. isAnimating (snd (runTimers k st'))"
    and fin: "\<not> isAnimating (snd (runTimers (?n + 1) st'))"
    by blast
  have n6: "?n + 1 = 6" and n5: "?n = 5" by simp_all
  have c: "visitedCount st' = Some 3 \<and> pathLength st' = Some 2"
    using st' s by (auto simp: handleSolve_def idle_def Let_def animate_def schedule_def
        setTimeout_def clearPath_def clearAnimations_eq eval_nat_numeral)
  have m: "map fst (fst (runTimers 6 st')) = [0, 5, 10, 15, 20, 30]"
    unfolding ev[unfolded n6]
    by (simp add: visitedEvents_def pathEvents_def idle_def baseDelayOf_def)
  have a: "isAnimating (snd (runTimers 5 st'))" using an[unfolded n5] by blast
  have f: "\<not> isAnimating (snd (runTimers 6 st'))" using fin[unfolded n6] .
  show ?thesis
    by (intro exI[of _ st'] conjI st' m a f conjunct1[OF c] conjunct2[OF c])
qed

section \<open>Well-formed grids\<close>

text \<open>
  A grid as the data model has it: at least one row, all rows as long as the first, and
  every cell carrying its own row and column index.
\<close>

definition wf_grid :: "Grid \<Rightarrow> bool" where
  "wf_grid g =
     (g \<noteq> [] \<and>
      list_all (\<lambda>(i, cells). length cells = length (hd g) \<and>
                  list_all (\<lambda>(j, cell). row cell = int i \<and> col cell = int j)
                    (enumerate 0 cells))
        (enumerate 0 g))"

definition passable :: "Grid \<Rightarrow> int \<times> int \<Rightarrow> bool" where
  "passable g k = (k \<in> gridRange g \<and> type (g ! nat (fst k) ! nat (snd k)) \<noteq> Wall)"

definition fourNeighbors :: "'a Position_scheme \<Rightarrow> Position list" where
  "fourNeighbors pos = map (\<lambda>d. \<lparr>row = row pos + fst d, col = col pos + snd d\<rparr>) deltas"

lemma wf_grid_row:
  assumes "wf_grid g" and "i < length g"
  shows "length (g ! i) = length (hd g)"
proof -
  have "(i, g ! i) \<in> set (enumerate 0 g)" using assms(2) by (simp add: in_set_enumerate_eq)
  then show ?thesis using assms(1) by (auto simp: wf_grid_def list_all_iff)
qed

lemma wf_grid_cell:
  assumes "wf_grid g" and "i < length g" and "j < length (hd g)"
  shows "row (g ! i ! j) = int i \<and> col (g ! i ! j) = int j"
proof -
  have "(i, g ! i) \<in> set (enumerate 0 g)" using assms(2) by (simp add: in_set_enumerate_eq)
  moreover have "(j, g ! i ! j) \<in> set (enumerate 0 (g ! i))"
    using assms wf_grid_row[OF assms(1,2)] by (simp add: in_set_enumerate_eq)
  ultimately show ?thesis using assms(1) by (fastforce simp: wf_grid_def list_all_iff)
qed

lemma neighborStep_wf:
  assumes "wf_grid g"
  shows "neighborStep g pos d res =
           Inr (res @ (if passable g (row pos + fst d, col pos + snd d)
                       then [\<lparr>row = row pos + fst d, col = col pos + snd d\<rparr>] else []))"
proof (cases "(row pos + fst d, col pos + snd d) \<in> gridRange g")
  case True
  then have "nat (row pos + fst d) < length g" by (auto simp: gridRange_def)
  then have "length (g ! nat (row pos + fst d)) = length (hd g)"
    using assms by (rule wf_grid_row[rotated])
  then show ?thesis using True
    by (auto simp: neighborStep_def Let_def passable_def gridRange_def)
next
  case False
  then show ?thesis
    by (auto simp: neighborStep_def Let_def passable_def gridRange_def)
qed

lemma getNeighbors_wf:
  assumes "wf_grid g"
  shows "getNeighbors g pos = Inr (filter (\<lambda>n. passable g (posKey n)) (fourNeighbors pos))"
proof -
  have ne: "g \<noteq> []" using assms by (simp add: wf_grid_def)
  show ?thesis
    by (simp add: getNeighbors_def ne deltas_def neighborStep_wf[OF assms] fourNeighbors_def
        posKey_def)
qed

section \<open>One iteration of the depth-first loop\<close>

lemma forEach_dfsPush:
  assumes "\<forall>n \<in> set xs. 0 \<le> row n \<and> row n < int rows"
  shows "\<exists>parent'. forEach xs (dfsPush cur (rows, V)) (parent, stack) =
           Inr (parent', stack @ filter (\<lambda>n. posKey n \<notin> V) xs) \<and>
           (\<forall>k. parent' k =
              (if k \<in> dom parent then parent k
               else if k \<in> posKey ` set (filter (\<lambda>n. posKey n \<notin> V) xs) then Some (Some cur)
               else None))"
  using assms
proof (induction xs arbitrary: parent stack)
  case Nil
  then show ?case by auto
next
  case (Cons x xs)
  have rx: "0 \<le> row x \<and> row x < int rows" using Cons.prems by simp
  show ?case
  proof (cases "posKey x \<in> V")
    case True
    then have "dfsPush cur (rows, V) x (parent, stack) = Inr (parent, stack)"
      using rx by (simp add: dfsPush_def matGet_def posKey_def)
    then have fe: "forEach (x # xs) (dfsPush cur (rows, V)) (parent, stack) =
        forEach xs (dfsPush cur (rows, V)) (parent, stack)"
      by simp
    have fl: "filter (\<lambda>n. posKey n \<notin> V) (x # xs) = filter (\<lambda>n. posKey n \<notin> V) xs"
      using True by simp
    have "\<forall>n \<in> set xs. 0 \<le> row n \<and> row n < int rows" using Cons.prems by simp
    then show ?thesis unfolding fe fl by (rule Cons.IH)
  next
    case False
    let ?p1 = "if posKey x \<in> dom parent then parent else parent(posKey x \<mapsto> Some cur)"
    have st: "dfsPush cur (rows, V) x (parent, stack) = Inr (?p1, stack @ [x])"
      using rx False by (simp add: dfsPush_def matGet_def posKey_def)
    obtain parent' where r: "forEach xs (dfsPush cur (rows, V)) (?p1, stack @ [x]) =
           Inr (parent', (stack @ [x]) @ filter (\<lambda>n. posKey n \<notin> V) xs)"
      and p: "\<forall>k. parent' k =
              (if k \<in> dom ?p1 then ?p1 k
               else if k \<in> posKey ` set (filter (\<lambda>n. posKey n \<notin> V) xs) then Some (Some cur)
               else None)"
      using Cons.IH[of ?p1 "stack @ [x]"] Cons.prems by auto
    have "forEach (x # xs) (dfsPush cur (rows, V)) (parent, stack) =
        Inr (parent', stack @ filter (\<lambda>n. posKey n \<notin> V) (x # xs))"
      using st r False by simp
    moreover have "\<forall>k. parent' k =
              (if k \<in> dom parent then parent k
               else if k \<in> posKey ` set (filter (\<lambda>n. posKey n \<notin> V) (x # xs))
                    then Some (Some cur) else None)"
    proof
      fix k
      show "parent' k =
              (if k \<in> dom parent then parent k
               else if k \<in> posKey ` set (filter (\<lambda>n. posKey n \<notin> V) (x # xs))
                    then Some (Some cur) else None)"
        using spec[OF p, of k] False by (auto split: if_splits)
    qed
    ultimately show ?thesis by blast
  qed
qed

lemma fourNeighbors_rows:
  assumes "n \<in> set (filter (\<lambda>n. passable g (posKey n)) (fourNeighbors pos))"
  shows "0 \<le> row n \<and> row n < int (length g)"
  using assms by (auto simp: passable_def gridRange_def posKey_def)

definition dfsPushed :: "Grid \<Rightarrow> (int \<times> int) set \<Rightarrow> Position \<Rightarrow> Position list" where
  "dfsPushed g V cur =
     filter (\<lambda>n. posKey n \<notin> insert (posKey cur) V)
       (filter (\<lambda>n. passable g (posKey n)) (fourNeighbors cur))"

text \<open>
  One iteration of the loop of \<^verbatim>\<open>dfs\<close> on a well-formed grid, with \<open>cur\<close> the popped
  position (the last of the stack) and \<open>V\<close> the marked positions; the neighbours are
  enumerated up, down, left, right. A marked \<open>cur\<close> is skipped. An unmarked one is marked
  and appended to the visited order; if it is the end the loop stops; if not, its unmarked
  passable neighbours are pushed in reverse enumeration order, and the parent map changes
  only at keys it did not hold.
\<close>

lemma dfs_loop_iteration:
  assumes "wf_grid g" and "stack \<noteq> []" and "cur = last stack"
    and "0 \<le> row cur \<and> row cur < int (length g)"
  shows "fourNeighbors cur =
           [\<lparr>row = row cur - 1, col = col cur\<rparr>, \<lparr>row = row cur + 1, col = col cur\<rparr>,
            \<lparr>row = row cur, col = col cur - 1\<rparr>, \<lparr>row = row cur, col = col cur + 1\<rparr>] \<and>
         (posKey cur \<in> V \<longrightarrow>
           dfs_loop g e (stack, (length g, V), parent, order) =
           dfs_loop g e (butlast stack, (length g, V), parent, order)) \<and>
         (posKey cur \<notin> V \<and> posKey cur = posKey e \<longrightarrow>
           dfs_loop g e (stack, (length g, V), parent, order) = Inr (parent, order @ [cur])) \<and>
         (posKey cur \<notin> V \<and> posKey cur \<noteq> posKey e \<longrightarrow>
           (\<exists>parent'.
             dfs_loop g e (stack, (length g, V), parent, order) =
             dfs_loop g e (butlast stack @ rev (dfsPushed g V cur),
                           (length g, insert (posKey cur) V), parent', order @ [cur]) \<and>
             (\<forall>k \<in> dom parent. parent' k = parent k) \<and>
             (\<forall>k. k \<notin> dom parent \<longrightarrow>
                  parent' k = (if k \<in> posKey ` set (dfsPushed g V cur)
                               then Some (Some cur) else None))))"
proof (intro conjI impI)
  show "fourNeighbors cur =
           [\<lparr>row = row cur - 1, col = col cur\<rparr>, \<lparr>row = row cur + 1, col = col cur\<rparr>,
            \<lparr>row = row cur, col = col cur - 1\<rparr>, \<lparr>row = row cur, col = col cur + 1\<rparr>]"
    by (simp add: fourNeighbors_def deltas_def)
  have r: "0 \<le> row (last stack)" "row (last stack) < int (length g)"
    using assms(3,4) by simp_all
  show "dfs_loop g e (stack, (length g, V), parent, order) =
        dfs_loop g e (butlast stack, (length g, V), parent, order)" if "posKey cur \<in> V"
    using that assms(2,3) r
    by (subst dfs_loop.simps) (simp add: Let_def matGet_def posKey_def)
  show "dfs_loop g e (stack, (length g, V), parent, order) = Inr (parent, order @ [cur])"
    if "posKey cur \<notin> V \<and> posKey cur = posKey e"
    using that assms(2,3) r
    by (subst dfs_loop.simps) (auto simp: Let_def matGet_def matSet_def posKey_def)
  show "\<exists>parent'.
             dfs_loop g e (stack, (length g, V), parent, order) =
             dfs_loop g e (butlast stack @ rev (dfsPushed g V cur),
                           (length g, insert (posKey cur) V), parent', order @ [cur]) \<and>
             (\<forall>k \<in> dom parent. parent' k = parent k) \<and>
             (\<forall>k. k \<notin> dom parent \<longrightarrow>
                  parent' k = (if k \<in> posKey ` set (dfsPushed g V cur)
                               then Some (Some cur) else None))"
    if h: "posKey cur \<notin> V \<and> posKey cur \<noteq> posKey e"
  proof -
    let ?ns = "filter (\<lambda>n. passable g (posKey n)) (fourNeighbors cur)"
    let ?V1 = "insert (posKey cur) V"
    have rows: "\<forall>n \<in> set (rev ?ns). 0 \<le> row n \<and> row n < int (length g)"
      using fourNeighbors_rows[of _ g cur] by simp
    obtain parent' where f: "forEach (rev ?ns) (dfsPush cur (length g, ?V1)) (parent, butlast stack) =
           Inr (parent', butlast stack @ filter (\<lambda>n. posKey n \<notin> ?V1) (rev ?ns))"
      and p: "\<forall>k. parent' k =
              (if k \<in> dom parent then parent k
               else if k \<in> posKey ` set (filter (\<lambda>n. posKey n \<notin> ?V1) (rev ?ns))
                    then Some (Some cur) else None)"
      using forEach_dfsPush[OF rows, of cur ?V1 parent "butlast stack"] by blast
    have rp: "filter (\<lambda>n. posKey n \<notin> ?V1) (rev ?ns) = rev (dfsPushed g V cur)"
      by (simp add: dfsPushed_def rev_filter)
    have "dfs_loop g e (stack, (length g, V), parent, order) =
          dfs_loop g e (butlast stack @ rev (dfsPushed g V cur), (length g, ?V1), parent',
                        order @ [cur])"
      using h assms(2,3) r f[unfolded rp]
      by (subst dfs_loop.simps)
         (auto simp: Let_def matGet_def matSet_def posKey_def getNeighbors_wf[OF assms(1)])
    moreover have "\<forall>k \<in> dom parent. parent' k = parent k"
    proof
      fix k assume "k \<in> dom parent"
      then show "parent' k = parent k" using spec[OF p, of k] by simp
    qed
    moreover have "\<forall>k. k \<notin> dom parent \<longrightarrow>
        parent' k = (if k \<in> posKey ` set (dfsPushed g V cur) then Some (Some cur) else None)"
    proof (intro allI impI)
      fix k assume "k \<notin> dom parent"
      then show "parent' k =
          (if k \<in> posKey ` set (dfsPushed g V cur) then Some (Some cur) else None)"
        using spec[OF p[unfolded rp], of k] by simp
    qed
    ultimately show ?thesis by blast
  qed
qed

section \<open>Trees as relations\<close>

text \<open>
  An undirected graph is a symmetric relation on its vertices. It is connected on a
  vertex set when any two of them are joined by a walk, and acyclic when no list of at
  least three distinct vertices is a closed walk. A tree that grows by one leaf at a
  time is described by its edges being bridges: removing an edge disconnects its ends.
\<close>

fun walk :: "('a \<times> 'a) set \<Rightarrow> 'a list \<Rightarrow> bool" where
  "walk E [] = True"
| "walk E [v] = True"
| "walk E (u # v # vs) = ((u, v) \<in> E \<and> walk E (v # vs))"

definition connectedOn :: "'a set \<Rightarrow> ('a \<times> 'a) set \<Rightarrow> bool" where
  "connectedOn V E = (\<forall>a \<in> V. \<forall>b \<in> V. (a, b) \<in> E\<^sup>*)"

definition acyclicGraph :: "('a \<times> 'a) set \<Rightarrow> bool" where
  "acyclicGraph E =
     (\<not> (\<exists>vs. 3 \<le> length vs \<and> distinct vs \<and> walk E vs \<and> (last vs, hd vs) \<in> E))"

definition bridges :: "('a \<times> 'a) set \<Rightarrow> bool" where
  "bridges E = (\<forall>(a, b) \<in> E. (a, b) \<notin> (E - {(a, b), (b, a)})\<^sup>*)"

lemma walk_rtrancl:
  assumes "walk F (x # xs)"
  shows "(x, last (x # xs)) \<in> F\<^sup>*"
  using assms
proof (induction xs arbitrary: x)
  case Nil
  then show ?case by simp
next
  case (Cons y ys)
  then have "(x, y) \<in> F" and "(y, last (y # ys)) \<in> F\<^sup>*" by auto
  then show ?case by (simp add: converse_rtrancl_into_rtrancl)
qed

lemma walk_mono:
  assumes "walk E vs" and "\<And>u v. (u, v) \<in> E \<Longrightarrow> u \<in> set vs \<Longrightarrow> v \<in> set (tl vs) \<Longrightarrow> (u, v) \<in> F"
  shows "walk F vs"
  using assms
proof (induction E vs rule: walk.induct)
  case (3 E u v vs)
  have "walk F (v # vs)"
    by (rule "3.IH") (use "3.prems" in auto)
  moreover have "(u, v) \<in> F" using "3.prems" by auto
  ultimately show ?case by simp
qed simp_all

lemma bridges_acyclic:
  assumes "bridges E" and "sym E"
  shows "acyclicGraph E"
  unfolding acyclicGraph_def
proof (rule notI, elim exE conjE)
  fix vs :: "'a list"
  assume len: "3 \<le> length vs" and d: "distinct vs" and w: "walk E vs"
    and cl: "(last vs, hd vs) \<in> E"
  obtain v0 v1 rest where vs: "vs = v0 # v1 # rest" and rest: "rest \<noteq> []"
    using len by (cases vs; cases "tl vs"; cases "tl (tl vs)") auto
  let ?F = "E - {(v1, v0), (v0, v1)}"
  have e01: "(v0, v1) \<in> E" using w vs by simp
  then have e10: "(v1, v0) \<in> E" using assms(2) by (auto dest: symD)
  have "walk ?F (v1 # rest)"
  proof (rule walk_mono)
    show "walk E (v1 # rest)" using w vs by simp
  next
    fix u v assume "(u, v) \<in> E" "u \<in> set (v1 # rest)" "v \<in> set (tl (v1 # rest))"
    then show "(u, v) \<in> ?F" using d vs by auto
  qed
  then have "(v1, last (v1 # rest)) \<in> ?F\<^sup>*" by (rule walk_rtrancl)
  moreover have "(last (v1 # rest), v0) \<in> ?F"
  proof -
    have "last (v1 # rest) = last vs" using vs by simp
    moreover have "last (v1 # rest) \<in> set rest" using rest by simp
    ultimately show ?thesis using cl d vs by auto
  qed
  ultimately have "(v1, v0) \<in> ?F\<^sup>*" by (rule rtrancl_into_rtrancl)
  moreover have "(v1, v0) \<notin> ?F\<^sup>*" using assms(1) e10 by (auto simp: bridges_def)
  ultimately show False by simp
qed

text \<open>A vertex that no edge of \<open>F\<close> touches, attached by one edge, is a leaf.\<close>

lemma leaf_rtrancl:
  assumes "(a, b) \<in> (F \<union> {(m, n), (n, m)})\<^sup>*" and "n \<notin> Field F" and "a \<noteq> n" and "m \<noteq> n"
  shows "if b = n then (a, m) \<in> F\<^sup>* else (a, b) \<in> F\<^sup>*"
  using assms(1)
proof (induction rule: rtrancl_induct)
  case base
  then show ?case using assms(3) by simp
next
  case (step b c)
  from step.hyps(2) consider "(b, c) \<in> F" | "b = m" "c = n" | "b = n" "c = m" by auto
  then show ?case
  proof cases
    case 1
    then have "b \<noteq> n" "c \<noteq> n" using assms(2) by (auto simp: Field_def)
    then show ?thesis using step.IH 1 by (auto intro: rtrancl_into_rtrancl)
  next
    case 2
    then show ?thesis using step.IH assms(4) by simp
  next
    case 3
    then show ?thesis using step.IH assms(4) by simp
  qed
qed

lemma not_reach_leaf:
  assumes "n \<notin> Field E" and "a \<noteq> n"
  shows "(a, n) \<notin> E\<^sup>*"
proof
  assume "(a, n) \<in> E\<^sup>*"
  then show False
    using assms by (cases rule: rtranclE) (auto simp: Field_def)
qed

lemma not_reach_from_leaf:
  assumes "n \<notin> Field E" and "a \<noteq> n"
  shows "(n, a) \<notin> E\<^sup>*"
proof
  assume "(n, a) \<in> E\<^sup>*"
  then show False
    using assms by (cases rule: converse_rtranclE) (auto simp: Field_def)
qed

lemma bridges_add_leaf:
  assumes "bridges E" and "n \<notin> Field E" and "m \<noteq> n"
  shows "bridges (E \<union> {(m, n), (n, m)})"
  unfolding bridges_def
proof (intro ballI, clarify)
  fix a b
  assume ab: "(a, b) \<in> E \<union> {(m, n), (n, m)}"
    and r: "(a, b) \<in> (E \<union> {(m, n), (n, m)} - {(a, b), (b, a)})\<^sup>*"
  show False
  proof (cases "(a, b) \<in> E")
    case True
    let ?F = "E - {(a, b), (b, a)}"
    have an: "a \<noteq> n" "b \<noteq> n" using True assms(2) by (auto simp: Field_def)
    have "E \<union> {(m, n), (n, m)} - {(a, b), (b, a)} = ?F \<union> {(m, n), (n, m)}"
      using an by auto
    moreover have "n \<notin> Field ?F" using assms(2) by (auto simp: Field_def)
    ultimately have "(a, b) \<in> ?F\<^sup>*"
      using leaf_rtrancl[of a b ?F m n] r an assms(3) by simp
    then show False using assms(1) True by (auto simp: bridges_def)
  next
    case False
    then have c: "(a = m \<and> b = n) \<or> (a = n \<and> b = m)" using ab by auto
    have "(m, n) \<notin> E" "(n, m) \<notin> E" using assms(2) by (auto simp: Field_def)
    then have "E \<union> {(m, n), (n, m)} - {(a, b), (b, a)} = E" using c by auto
    then have "(a, b) \<in> E\<^sup>*" using r by simp
    then show False
      using c not_reach_leaf[OF assms(2), of m] not_reach_from_leaf[OF assms(2), of m] assms(3)
      by auto
  qed
qed

lemma connectedOn_add_leaf:
  assumes "connectedOn V E" and "m \<in> V"
  shows "connectedOn (insert n V) (E \<union> {(m, n), (n, m)})"
  unfolding connectedOn_def
proof (intro ballI)
  fix a b
  let ?E = "E \<union> {(m, n), (n, m)}"
  assume a: "a \<in> insert n V" and b: "b \<in> insert n V"
  have old: "\<And>x y. x \<in> V \<Longrightarrow> y \<in> V \<Longrightarrow> (x, y) \<in> ?E\<^sup>*"
    using assms(1) rtrancl_mono[of E ?E] by (auto simp: connectedOn_def)
  have to_n: "\<And>x. x \<in> V \<Longrightarrow> (x, n) \<in> ?E\<^sup>*"
    using old[OF _ assms(2)] by (auto intro: rtrancl_into_rtrancl)
  have from_n: "\<And>x. x \<in> V \<Longrightarrow> (n, x) \<in> ?E\<^sup>*"
    using old[OF assms(2)] by (auto intro: converse_rtrancl_into_rtrancl)
  show "(a, b) \<in> ?E\<^sup>*"
    using a b old to_n from_n by auto
qed

section \<open>The room graph of a maze grid\<close>

text \<open>
  Rooms are the pairs \<open>(mr, mc)\<close> of the logical lattice; room \<open>m\<close> is the grid cell
  \<open>(2 * mr + 1, 2 * mc + 1)\<close>, and the wall cell between two adjacent rooms lies between
  their cells. Two rooms are joined when they are adjacent and that cell is a passage.
\<close>

definition rooms :: "int \<Rightarrow> int \<Rightarrow> (int \<times> int) set" where
  "rooms cR cC = {0..<cR} \<times> {0..<cC}"

definition cellType :: "Grid \<Rightarrow> int \<times> int \<Rightarrow> CellType" where
  "cellType g p = type (g ! nat (fst p) ! nat (snd p))"

definition roomCell :: "int \<times> int \<Rightarrow> int \<times> int" where
  "roomCell m = (2 * fst m + 1, 2 * snd m + 1)"

definition wallCell :: "int \<times> int \<Rightarrow> int \<times> int \<Rightarrow> int \<times> int" where
  "wallCell m n = (fst m + fst n + 1, snd m + snd n + 1)"

definition adjacent :: "int \<times> int \<Rightarrow> int \<times> int \<Rightarrow> bool" where
  "adjacent m n = (\<bar>fst m - fst n\<bar> + \<bar>snd m - snd n\<bar> = 1)"

definition roomAdj :: "int \<Rightarrow> int \<Rightarrow> Grid \<Rightarrow> ((int \<times> int) \<times> (int \<times> int)) set" where
  "roomAdj cR cC g =
     {(m, n). m \<in> rooms cR cC \<and> n \<in> rooms cR cC \<and> adjacent m n \<and>
              cellType g (wallCell m n) = Passage}"

definition wallCells :: "int \<Rightarrow> int \<Rightarrow> (int \<times> int) set" where
  "wallCells cR cC =
     (\<lambda>(m, n). wallCell m n) ` {(m, n). m \<in> rooms cR cC \<and> n \<in> rooms cR cC \<and> adjacent m n}"

definition openWalls :: "int \<Rightarrow> int \<Rightarrow> Grid \<Rightarrow> (int \<times> int) set" where
  "openWalls cR cC g = {w \<in> wallCells cR cC. cellType g w = Passage}"

definition fullRange :: "int \<Rightarrow> int \<Rightarrow> (int \<times> int) set" where
  "fullRange cR cC = {0..<2 * cR + 1} \<times> {0..<2 * cC + 1}"

definition mazeShape :: "int \<Rightarrow> int \<Rightarrow> Grid \<Rightarrow> bool" where
  "mazeShape cR cC g =
     (length g = nat (2 * cR + 1) \<and>
      (\<forall>i < length g. length (g ! i) = nat (2 * cC + 1) \<and>
         (\<forall>j < nat (2 * cC + 1). row (g ! i ! j) = int i \<and> col (g ! i ! j) = int j)))"

definition onlyWallPassage :: "Grid \<Rightarrow> bool" where
  "onlyWallPassage g = (\<forall>cells \<in> set g. \<forall>c \<in> set cells. type c = Wall \<or> type c = Passage)"

lemma finite_rooms [simp]: "finite (rooms cR cC)"
  by (simp add: rooms_def)

lemma finite_wallCells [simp]: "finite (wallCells cR cC)"
proof -
  have "{(m, n). m \<in> rooms cR cC \<and> n \<in> rooms cR cC \<and> adjacent m n} \<subseteq> rooms cR cC \<times> rooms cR cC"
    by auto
  then have "finite {(m, n). m \<in> rooms cR cC \<and> n \<in> rooms cR cC \<and> adjacent m n}"
    by (rule finite_subset) simp
  then show ?thesis by (simp add: wallCells_def)
qed

lemma finite_openWalls [simp]: "finite (openWalls cR cC g)"
  by (simp add: openWalls_def)

lemma roomCell_range: "m \<in> rooms cR cC \<Longrightarrow> roomCell m \<in> fullRange cR cC"
  by (auto simp: rooms_def roomCell_def fullRange_def)

lemma wallCell_range:
  "m \<in> rooms cR cC \<Longrightarrow> n \<in> rooms cR cC \<Longrightarrow> wallCell m n \<in> fullRange cR cC"
  by (auto simp: rooms_def wallCell_def fullRange_def)

lemma wallCells_range: "wallCells cR cC \<subseteq> fullRange cR cC"
  by (auto simp: wallCells_def wallCell_range)

lemma roomCell_inj: "roomCell a = roomCell b \<longleftrightarrow> a = b"
  by (auto simp: roomCell_def prod_eq_iff)

lemma adjacent_iff:
  "adjacent (a, b) (c, d) \<longleftrightarrow>
     (a = c \<and> (d = b + 1 \<or> d = b - 1)) \<or> (b = d \<and> (c = a + 1 \<or> c = a - 1))"
  unfolding adjacent_def by (simp add: abs_if) arith

lemma roomCell_not_wall: "adjacent a b \<Longrightarrow> roomCell m \<noteq> wallCell a b"
  by (cases m; cases a; cases b) (auto simp: adjacent_iff roomCell_def wallCell_def, presburger+)

lemma roomCell_notin_wallCells: "roomCell m \<notin> wallCells cR cC"
proof
  assume "roomCell m \<in> wallCells cR cC"
  then obtain a b where "adjacent a b" "roomCell m = wallCell a b"
    by (auto simp: wallCells_def)
  then show False using roomCell_not_wall by blast
qed

lemma wallCell_inj:
  assumes "adjacent a b" and "adjacent m n" and "wallCell a b = wallCell m n"
  shows "(a = m \<and> b = n) \<or> (a = n \<and> b = m)"
  using assms
  by (cases m; cases n; cases a; cases b) (auto simp: adjacent_iff wallCell_def)

lemma wallCell_sym: "wallCell m n = wallCell n m"
  by (simp add: wallCell_def add.commute)

lemma adjacent_sym: "adjacent m n \<longleftrightarrow> adjacent n m"
  by (auto simp: adjacent_def)

lemma sym_roomAdj: "sym (roomAdj cR cC g)"
  using adjacent_sym wallCell_sym by (auto simp: sym_def roomAdj_def)

lemma adjacent_neq: "adjacent m n \<Longrightarrow> m \<noteq> n"
  by (auto simp: adjacent_def)

subsection \<open>Writing one cell\<close>

lemma setType_ok:
  assumes "mazeShape cR cC g" and "(r, c) \<in> fullRange cR cC"
  shows "\<exists>g'. setType g r c t = Inr g' \<and> mazeShape cR cC g' \<and>
           (\<forall>p \<in> fullRange cR cC. cellType g' p = (if p = (r, c) then t else cellType g p))"
proof -
  let ?g' = "g[nat r := (g ! nat r)[nat c := (g ! nat r ! nat c)\<lparr>type := t\<rparr>]]"
  have lg: "length g = nat (2 * cR + 1)"
    and lr: "\<And>i. i < length g \<Longrightarrow> length (g ! i) = nat (2 * cC + 1)"
    and fl: "\<And>i j. i < length g \<Longrightarrow> j < nat (2 * cC + 1) \<Longrightarrow>
               row (g ! i ! j) = int i \<and> col (g ! i ! j) = int j"
    using assms(1) by (auto simp: mazeShape_def)
  have r: "0 \<le> r" "nat r < length g" and c: "0 \<le> c" "nat c < nat (2 * cC + 1)"
    using assms(2) lg by (auto simp: fullRange_def)
  have "setType g r c t = Inr ?g'"
    using r c lr[OF r(2)] by (simp add: setType_def)
  moreover have "mazeShape cR cC ?g'"
    unfolding mazeShape_def
  proof (intro conjI allI impI)
    show "length ?g' = nat (2 * cR + 1)" using lg by simp
  next
    fix i assume "i < length ?g'"
    then show "length (?g' ! i) = nat (2 * cC + 1)"
      using lr by (cases "i = nat r") simp_all
  next
    fix i j assume "i < length ?g'" "j < nat (2 * cC + 1)"
    then show "row (?g' ! i ! j) = int i" "col (?g' ! i ! j) = int j"
      using lr fl by (cases "i = nat r"; cases "j = nat c"; simp)+
  qed
  moreover have "\<forall>p \<in> fullRange cR cC. cellType ?g' p = (if p = (r, c) then t else cellType g p)"
  proof
    fix p assume p: "p \<in> fullRange cR cC"
    obtain pr pc where pp: "p = (pr, pc)" by (cases p) auto
    have pr: "0 \<le> pr" "nat pr < length g" and pc: "0 \<le> pc" "nat pc < nat (2 * cC + 1)"
      using p pp lg by (auto simp: fullRange_def)
    show "cellType ?g' p = (if p = (r, c) then t else cellType g p)"
      unfolding pp cellType_def using r c pr pc lr
      by (cases "pr = r"; cases "pc = c") (simp_all add: nat_eq_iff)
  qed
  ultimately show ?thesis by blast
qed

lemma setType_onlyWallPassage:
  assumes "setType g r c t = Inr g'" and "onlyWallPassage g" and "t = Wall \<or> t = Passage"
  shows "onlyWallPassage g'"
proof -
  have g': "g' = g[nat r := (g ! nat r)[nat c := (g ! nat r ! nat c)\<lparr>type := t\<rparr>]]"
    using assms(1) by (simp add: setType_def split: if_splits)
  show ?thesis
    unfolding onlyWallPassage_def g'
  proof (intro ballI)
    fix cells x
    assume "cells \<in> set (g[nat r := (g ! nat r)[nat c := (g ! nat r ! nat c)\<lparr>type := t\<rparr>]])"
      and x: "x \<in> set cells"
    then have "cells \<in> set g \<or> cells = (g ! nat r)[nat c := (g ! nat r ! nat c)\<lparr>type := t\<rparr>]"
      by (auto dest: set_update_subset_insert[THEN subsetD])
    then show "type x = Wall \<or> type x = Passage"
    proof
      assume "cells \<in> set g"
      then show ?thesis using assms(2) x by (auto simp: onlyWallPassage_def)
    next
      assume cs: "cells = (g ! nat r)[nat c := (g ! nat r ! nat c)\<lparr>type := t\<rparr>]"
      have "g ! nat r \<in> set g \<or> g ! nat r = []"
        using assms(1) by (auto simp: setType_def split: if_splits)
      then have old: "\<forall>y \<in> set (g ! nat r). type y = Wall \<or> type y = Passage"
        using assms(2) by (auto simp: onlyWallPassage_def)
      from x cs have "x \<in> set (g ! nat r) \<or> x = (g ! nat r ! nat c)\<lparr>type := t\<rparr>"
        by (auto dest: set_update_subset_insert[THEN subsetD])
      then show ?thesis using old assms(3) by auto
    qed
  qed
qed

subsection \<open>The invariant of carving\<close>

definition treeInv :: "int \<Rightarrow> int \<Rightarrow> Grid \<Rightarrow> (int \<times> int) set \<Rightarrow> bool" where
  "treeInv cR cC g V =
     (Field (roomAdj cR cC g) \<subseteq> V \<and> connectedOn V (roomAdj cR cC g) \<and>
      bridges (roomAdj cR cC g) \<and> card (openWalls cR cC g) + 1 = card V)"

definition roomsMarked :: "int \<Rightarrow> int \<Rightarrow> Grid \<Rightarrow> (int \<times> int) set \<Rightarrow> bool" where
  "roomsMarked cR cC g V =
     (mazeShape cR cC g \<and> onlyWallPassage g \<and> V \<subseteq> rooms cR cC \<and>
      (\<forall>m \<in> rooms cR cC. cellType g (roomCell m) = Passage \<longleftrightarrow> m \<in> V) \<and>
      (\<forall>p \<in> fullRange cR cC - roomCell ` rooms cR cC - wallCells cR cC. cellType g p = Wall))"

definition carveInv :: "int \<Rightarrow> int \<Rightarrow> Grid \<Rightarrow> (int \<times> int) set \<Rightarrow> bool" where
  "carveInv cR cC g V = (roomsMarked cR cC g V \<and> treeInv cR cC g V)"

definition carvePre :: "int \<Rightarrow> int \<Rightarrow> Grid \<Rightarrow> (int \<times> int) set \<Rightarrow> int \<times> int \<Rightarrow> bool" where
  "carvePre cR cC g V m =
     (roomsMarked cR cC g V \<and> m \<in> rooms cR cC \<and> m \<notin> V \<and> treeInv cR cC g (insert m V))"

lemma walls_unchanged:
  assumes "\<forall>w \<in> wallCells cR cC. cellType g' w = cellType g w"
  shows "roomAdj cR cC g' = roomAdj cR cC g" and "openWalls cR cC g' = openWalls cR cC g"
proof -
  have "\<And>m n. m \<in> rooms cR cC \<Longrightarrow> n \<in> rooms cR cC \<Longrightarrow> adjacent m n \<Longrightarrow>
      cellType g' (wallCell m n) = cellType g (wallCell m n)"
    using assms by (auto simp: wallCells_def)
  then show "roomAdj cR cC g' = roomAdj cR cC g" by (auto simp: roomAdj_def)
  show "openWalls cR cC g' = openWalls cR cC g" using assms by (auto simp: openWalls_def)
qed

lemma mark_room:
  assumes "carvePre cR cC g V m"
  shows "\<exists>g1. setType g (2 * fst m + 1) (2 * snd m + 1) Passage = Inr g1 \<and>
           carveInv cR cC g1 (insert m V)"
proof -
  have rm: "roomsMarked cR cC g V" and m: "m \<in> rooms cR cC" "m \<notin> V"
    and t: "treeInv cR cC g (insert m V)"
    using assms by (auto simp: carvePre_def)
  have rc: "roomCell m = (2 * fst m + 1, 2 * snd m + 1)" by (simp add: roomCell_def)
  obtain g1 where s: "setType g (2 * fst m + 1) (2 * snd m + 1) Passage = Inr g1"
    and sh: "mazeShape cR cC g1"
    and ct: "\<forall>p \<in> fullRange cR cC. cellType g1 p = (if p = roomCell m then Passage else cellType g p)"
    using setType_ok[of cR cC g "2 * fst m + 1" "2 * snd m + 1" Passage]
      roomCell_range[OF m(1)] rm unfolding rc roomsMarked_def by blast
  have "\<forall>w \<in> wallCells cR cC. cellType g1 w = cellType g w"
    using ct wallCells_range roomCell_notin_wallCells by (metis subsetD)
  note w = walls_unchanged[OF this]
  have "treeInv cR cC g1 (insert m V)" using t unfolding treeInv_def w .
  moreover have "roomsMarked cR cC g1 (insert m V)"
    unfolding roomsMarked_def
  proof (intro conjI ballI)
    show "mazeShape cR cC g1" by (rule sh)
    show "onlyWallPassage g1"
      using setType_onlyWallPassage[OF s] rm by (simp add: roomsMarked_def)
    show "insert m V \<subseteq> rooms cR cC" using rm m by (simp add: roomsMarked_def)
  next
    fix a assume a: "a \<in> rooms cR cC"
    have "cellType g1 (roomCell a) = (if a = m then Passage else cellType g (roomCell a))"
      using ct roomCell_range[OF a] by (simp add: roomCell_inj)
    then show "cellType g1 (roomCell a) = Passage \<longleftrightarrow> a \<in> insert m V"
      using rm a by (auto simp: roomsMarked_def)
  next
    fix p assume p: "p \<in> fullRange cR cC - roomCell ` rooms cR cC - wallCells cR cC"
    then have "cellType g1 p = cellType g p" using ct m(1) by auto
    then show "cellType g1 p = Wall" using rm p by (simp add: roomsMarked_def)
  qed
  ultimately show ?thesis using s by (auto simp: carveInv_def)
qed

lemma open_wall:
  assumes "carveInv cR cC g V" and "m \<in> V" and "n \<in> rooms cR cC" and "n \<notin> V"
    and "adjacent m n"
  shows "\<exists>g2. setType g (fst m + fst n + 1) (snd m + snd n + 1) Passage = Inr g2 \<and>
           carvePre cR cC g2 V n"
proof -
  have rm: "roomsMarked cR cC g V" and t: "treeInv cR cC g V"
    using assms(1) by (auto simp: carveInv_def)
  have mr: "m \<in> rooms cR cC" using rm assms(2) by (auto simp: roomsMarked_def)
  have wc: "wallCell m n = (fst m + fst n + 1, snd m + snd n + 1)" by (simp add: wallCell_def)
  have win: "wallCell m n \<in> wallCells cR cC"
    using mr assms(3,5) by (auto simp: wallCells_def)
  obtain g2 where s: "setType g (fst m + fst n + 1) (snd m + snd n + 1) Passage = Inr g2"
    and sh: "mazeShape cR cC g2"
    and ct: "\<forall>p \<in> fullRange cR cC. cellType g2 p = (if p = wallCell m n then Passage else cellType g p)"
    using setType_ok[of cR cC g "fst m + fst n + 1" "snd m + snd n + 1" Passage]
      wallCell_range[OF mr assms(3)] rm unfolding wc roomsMarked_def by blast
  let ?E = "roomAdj cR cC g"
  have nF: "n \<notin> Field ?E" using t assms(4) by (auto simp: treeInv_def)
  have adj: "roomAdj cR cC g2 = ?E \<union> {(m, n), (n, m)}"
  proof -
    have "\<And>a b. a \<in> rooms cR cC \<Longrightarrow> b \<in> rooms cR cC \<Longrightarrow> adjacent a b \<Longrightarrow>
        cellType g2 (wallCell a b) = Passage \<longleftrightarrow>
        cellType g (wallCell a b) = Passage \<or> (a = m \<and> b = n) \<or> (a = n \<and> b = m)"
    proof -
      fix a b assume ab: "a \<in> rooms cR cC" "b \<in> rooms cR cC" "adjacent a b"
      have "cellType g2 (wallCell a b) =
          (if wallCell a b = wallCell m n then Passage else cellType g (wallCell a b))"
        using ct wallCell_range[OF ab(1,2)] by simp
      then show "cellType g2 (wallCell a b) = Passage \<longleftrightarrow>
          cellType g (wallCell a b) = Passage \<or> (a = m \<and> b = n) \<or> (a = n \<and> b = m)"
        using wallCell_inj[OF ab(3) assms(5)] wallCell_sym[of n m] by auto
    qed
    then show ?thesis
      using mr assms(3,5) adjacent_sym[of m n] by (auto simp: roomAdj_def)
  qed
  have ctw: "\<And>w. w \<in> wallCells cR cC \<Longrightarrow>
      cellType g2 w = (if w = wallCell m n then Passage else cellType g w)"
    using ct wallCells_range by blast
  have ow: "openWalls cR cC g2 = insert (wallCell m n) (openWalls cR cC g)"
    using win by (auto simp: openWalls_def ctw)
  have notopen: "wallCell m n \<notin> openWalls cR cC g"
  proof
    assume "wallCell m n \<in> openWalls cR cC g"
    then have "(m, n) \<in> ?E" using mr assms(3,5) by (simp add: roomAdj_def openWalls_def)
    then show False using nF by (auto simp: Field_def)
  qed
  have "treeInv cR cC g2 (insert n V)"
    unfolding treeInv_def adj
  proof (intro conjI)
    show "Field (?E \<union> {(m, n), (n, m)}) \<subseteq> insert n V"
      using t assms(2) by (auto simp: treeInv_def Field_def)
    show "connectedOn (insert n V) (?E \<union> {(m, n), (n, m)})"
      using t assms(2) by (intro connectedOn_add_leaf) (auto simp: treeInv_def)
    show "bridges (?E \<union> {(m, n), (n, m)})"
      using t nF adjacent_neq[OF assms(5)] by (intro bridges_add_leaf) (auto simp: treeInv_def)
    have "finite V" using rm by (auto simp: roomsMarked_def intro: finite_subset[OF _ finite_rooms])
    then show "card (openWalls cR cC g2) + 1 = card (insert n V)"
      using t notopen assms(4) unfolding ow by (simp add: treeInv_def)
  qed
  moreover have "roomsMarked cR cC g2 V"
    unfolding roomsMarked_def
  proof (intro conjI ballI)
    show "mazeShape cR cC g2" by (rule sh)
    show "onlyWallPassage g2"
      using setType_onlyWallPassage[OF s] rm by (simp add: roomsMarked_def)
    show "V \<subseteq> rooms cR cC" using rm by (simp add: roomsMarked_def)
  next
    fix a assume a: "a \<in> rooms cR cC"
    have "cellType g2 (roomCell a) = cellType g (roomCell a)"
      using ct roomCell_range[OF a] roomCell_not_wall[OF assms(5), of a] by simp
    then show "cellType g2 (roomCell a) = Passage \<longleftrightarrow> a \<in> V"
      using rm a by (auto simp: roomsMarked_def)
  next
    fix p assume p: "p \<in> fullRange cR cC - roomCell ` rooms cR cC - wallCells cR cC"
    then have "cellType g2 p = cellType g p" using ct win by auto
    then show "cellType g2 p = Wall" using rm p by (simp add: roomsMarked_def)
  qed
  ultimately show ?thesis using s assms(3,4) by (auto simp: carvePre_def)
qed

subsection \<open>The shuffle is a permutation\<close>

lemma shuffleLoop_set:
  assumes "i < length dirs"
  shows "set (fst (shuffleLoop rnd i dirs k)) = set dirs \<and>
         length (fst (shuffleLoop rnd i dirs k)) = length dirs"
  using assms
proof (induction i arbitrary: dirs k)
  case 0
  then show ?case by simp
next
  case (Suc i)
  let ?j = "rnd k mod (Suc i + 1)"
  let ?d = "dirs[Suc i := dirs ! ?j, ?j := dirs ! Suc i]"
  have j: "?j < length dirs" using Suc.prems by (simp add: less_le_trans[OF mod_less_divisor])
  have s: "set ?d = set dirs" using Suc.prems j by (simp add: set_swap)
  have "i < length ?d" using Suc.prems by simp
  from Suc.IH[OF this, of "k + 1"] s show ?case by (simp add: Let_def)
qed

subsection \<open>Loops that return\<close>

lemma forEachF_total:
  assumes "I ds0 s"
    and "\<And>ds x t. I ds t \<Longrightarrow> x \<in> set xs \<Longrightarrow> \<exists>t'. body x t = Some (Inr t') \<and> I (ds @ [x]) t'"
  shows "\<exists>s'. forEachF xs body s = Some (Inr s') \<and> I (ds0 @ xs) s'"
  using assms
proof (induction xs arbitrary: ds0 s)
  case Nil
  then show ?case by simp
next
  case (Cons x xs)
  obtain t where t: "body x s = Some (Inr t)" and it: "I (ds0 @ [x]) t"
    using Cons.prems(2)[OF Cons.prems(1), of x] by auto
  have "\<exists>s'. forEachF xs body t = Some (Inr s') \<and> I ((ds0 @ [x]) @ xs) s'"
    by (rule Cons.IH[OF it]) (use Cons.prems(2) in auto)
  then show ?case using t by simp
qed

subsection \<open>carveFrom\<close>

definition closedAt :: "int \<Rightarrow> int \<Rightarrow> (int \<times> int) set \<Rightarrow> int \<times> int \<Rightarrow> bool" where
  "closedAt cR cC V a =
     (\<forall>d \<in> set dirs0. (fst a + fst d, snd a + snd d) \<in> rooms cR cC \<longrightarrow>
                        (fst a + fst d, snd a + snd d) \<in> V)"

text \<open>The body of the loop over the shuffled directions in \<^verbatim>\<open>carveFrom\<close>.\<close>

definition carveBody :: "nat \<Rightarrow> (nat \<Rightarrow> nat) \<Rightarrow> int \<Rightarrow> int \<Rightarrow> int \<Rightarrow> int \<Rightarrow> int \<times> int \<Rightarrow> GenState
    \<Rightarrow> (error + GenState) option" where
  "carveBody fuel rnd cR cC mr mc =
     (\<lambda>(dr, dc) (g, visited, k).
        if \<not> inBounds cR cC (mr + dr) (mc + dc) then Some (Inr (g, visited, k))
        else (case matGet visited (mr + dr) (mc + dc) of
                Inl e \<Rightarrow> Some (Inl e)
              | Inr True \<Rightarrow> Some (Inr (g, visited, k))
              | Inr False \<Rightarrow>
                  (let wallR = 2 * mr + 1 + dr;
                       wallC = 2 * mc + 1 + dc
                   in (case setType g wallR wallC Passage of
                         Inl e \<Rightarrow> Some (Inl e)
                       | Inr g2 \<Rightarrow>
                           carveFrom fuel rnd cR cC (mr + dr) (mc + dc) (g2, visited, k)))))"

lemma carveFrom_Suc:
  "carveFrom (Suc fuel) rnd cR cC mr mc (g, visited, k) =
     (case matSet visited mr mc of
        Inl e \<Rightarrow> Some (Inl e)
      | Inr visited1 \<Rightarrow>
          (case setType g (2 * mr + 1) (2 * mc + 1) Passage of
             Inl e \<Rightarrow> Some (Inl e)
           | Inr g1 \<Rightarrow>
               forEachF (fst (shuffleLoop rnd (length dirs0 - 1) dirs0 k))
                 (carveBody fuel rnd cR cC mr mc)
                 (g1, visited1, snd (shuffleLoop rnd (length dirs0 - 1) dirs0 k))))"
  by (simp add: carveBody_def Let_def case_prod_beta split: sum.splits)

lemma dirs0_adjacent:
  "d \<in> set dirs0 \<Longrightarrow> adjacent m (fst m + fst d, snd m + snd d)"
  by (auto simp: dirs0_def adjacent_def)

lemma closedAt_mono: "closedAt cR cC V a \<Longrightarrow> V \<subseteq> V' \<Longrightarrow> closedAt cR cC V' a"
  by (auto simp: closedAt_def)

definition carvePost ::
  "int \<Rightarrow> int \<Rightarrow> (int \<times> int) set \<Rightarrow> (int \<times> int) set \<Rightarrow> GenState \<Rightarrow> bool" where
  "carvePost cR cC B S s =
     (\<exists>g' V' k'. s = (g', (nat cR, V'), k') \<and> carveInv cR cC g' V' \<and> S \<subseteq> V' \<and>
                  (\<forall>a \<in> V' - B. closedAt cR cC V' a))"

lemma carveFrom_correct:
  assumes "carvePre cR cC g V m" and "card (rooms cR cC - V) \<le> fuel"
  shows "\<exists>s'. carveFrom fuel rnd cR cC (fst m) (snd m) (g, (nat cR, V), k) = Some (Inr s') \<and>
           carvePost cR cC V (insert m V) s'"
  using assms
proof (induction fuel arbitrary: g V m k)
  case 0
  have "m \<in> rooms cR cC - V" using "0.prems"(1) by (simp add: carvePre_def)
  then have "card (rooms cR cC - V) > 0" by (auto simp: card_gt_0_iff)
  then show ?case using "0.prems"(2) by simp
next
  case (Suc fuel)
  let ?V1 = "insert m V"
  have m: "m \<in> rooms cR cC" "m \<notin> V" using Suc.prems(1) by (auto simp: carvePre_def)
  have mrow: "0 \<le> fst m" "fst m < int (nat cR)" using m(1) by (auto simp: rooms_def)
  have ms: "matSet (nat cR, V) (fst m) (snd m) = Inr (nat cR, ?V1)"
    using mrow by (simp add: matSet_def)
  obtain g1 where g1: "setType g (2 * fst m + 1) (2 * snd m + 1) Passage = Inr g1"
    and inv1: "carveInv cR cC g1 ?V1"
    using mark_room[OF Suc.prems(1)] by blast
  let ?dirs = "fst (shuffleLoop rnd (length dirs0 - 1) dirs0 k)"
  let ?k1 = "snd (shuffleLoop rnd (length dirs0 - 1) dirs0 k)"
  have sd: "set ?dirs = set dirs0"
    using shuffleLoop_set[of "length dirs0 - 1" dirs0 rnd k] by (simp add: dirs0_def)
  define I where "I = (\<lambda>(ds :: (int \<times> int) list) (s :: GenState).
      carvePost cR cC ?V1 ?V1 s \<and>
      (\<forall>d \<in> set ds. (fst m + fst d, snd m + snd d) \<in> rooms cR cC \<longrightarrow>
          (fst m + fst d, snd m + snd d) \<in> snd (fst (snd s))))"
  have fin: "card (rooms cR cC - ?V1) \<le> fuel"
  proof -
    have "rooms cR cC - ?V1 = (rooms cR cC - V) - {m}" by auto
    moreover have "m \<in> rooms cR cC - V" using m by simp
    ultimately have "card (rooms cR cC - ?V1) = card (rooms cR cC - V) - 1" by simp
    then show ?thesis using Suc.prems(2) by simp
  qed
  have I0: "I [] (g1, (nat cR, ?V1), ?k1)"
    using inv1 by (auto simp: I_def carvePost_def)
  have step: "\<exists>t'. carveBody fuel rnd cR cC (fst m) (snd m) x t = Some (Inr t') \<and> I (ds @ [x]) t'"
    if It: "I ds t" and x: "x \<in> set ?dirs" for ds x t
  proof -
    obtain g' V' k' where t: "t = (g', (nat cR, V'), k')" and inv: "carveInv cR cC g' V'"
      and sub: "?V1 \<subseteq> V'" and cl: "\<forall>a \<in> V' - ?V1. closedAt cR cC V' a"
      and dn: "\<forall>d \<in> set ds. (fst m + fst d, snd m + snd d) \<in> rooms cR cC \<longrightarrow>
          (fst m + fst d, snd m + snd d) \<in> V'"
      using It by (auto simp: I_def carvePost_def)
    obtain dr dc where xd: "x = (dr, dc)" by (cases x) auto
    let ?n = "(fst m + dr, snd m + dc)"
    have ib: "inBounds cR cC (fst m + dr) (snd m + dc) \<longleftrightarrow> ?n \<in> rooms cR cC"
      by (auto simp: inBounds_def rooms_def)
    show ?thesis
    proof (cases "?n \<in> rooms cR cC \<and> ?n \<notin> V'")
      case False
      then have "carveBody fuel rnd cR cC (fst m) (snd m) x t = Some (Inr t)"
        using ib unfolding carveBody_def xd t
        by (auto simp: matGet_def rooms_def)
      moreover have "I (ds @ [x]) t"
        using False inv sub cl dn unfolding I_def t xd carvePost_def by auto
      ultimately show ?thesis by blast
    next
      case True
      have mg: "matGet (nat cR, V') (fst m + dr) (snd m + dc) = Inr False"
        using True by (auto simp: matGet_def rooms_def)
      have adj: "adjacent m ?n" using dirs0_adjacent[of x m] x sd xd by simp
      have mV: "m \<in> V'" using sub by simp
      obtain g2 where g2: "setType g' (fst m + fst ?n + 1) (snd m + snd ?n + 1) Passage = Inr g2"
        and pre: "carvePre cR cC g2 V' ?n"
        using open_wall[OF inv mV _ _ adj] True by blast
      have g2': "setType g' (2 * fst m + 1 + dr) (2 * snd m + 1 + dc) Passage = Inr g2"
        using g2 by (simp add: algebra_simps)
      have c: "card (rooms cR cC - V') \<le> fuel"
      proof -
        have "card (rooms cR cC - V') \<le> card (rooms cR cC - ?V1)"
          using sub by (intro card_mono) auto
        then show ?thesis using fin by simp
      qed
      obtain s' where rec: "carveFrom fuel rnd cR cC (fst ?n) (snd ?n) (g2, (nat cR, V'), k') = Some (Inr s')"
        and post: "carvePost cR cC V' (insert ?n V') s'"
        using Suc.IH[OF pre c, of k'] by blast
      have "carveBody fuel rnd cR cC (fst m) (snd m) x t = Some (Inr s')"
        using True ib mg g2' rec unfolding carveBody_def xd t by (simp add: Let_def)
      moreover have "I (ds @ [x]) s'"
      proof -
        obtain g'' V'' k'' where s': "s' = (g'', (nat cR, V''), k'')"
          and inv'': "carveInv cR cC g'' V''" and sub'': "insert ?n V' \<subseteq> V''"
          and cl'': "\<forall>a \<in> V'' - V'. closedAt cR cC V'' a"
          using post by (auto simp: carvePost_def)
        have V'': "V' \<subseteq> V''" "?n \<in> V''" using sub'' by auto
        have "\<forall>a \<in> V'' - ?V1. closedAt cR cC V'' a"
        proof
          fix a assume a: "a \<in> V'' - ?V1"
          show "closedAt cR cC V'' a"
          proof (cases "a \<in> V'")
            case True
            then have "closedAt cR cC V' a" using cl a by simp
            then show ?thesis using V''(1) by (rule closedAt_mono)
          next
            case False
            then show ?thesis using cl'' a by simp
          qed
        qed
        moreover have "\<forall>d \<in> set (ds @ [x]). (fst m + fst d, snd m + snd d) \<in> rooms cR cC \<longrightarrow>
            (fst m + fst d, snd m + snd d) \<in> V''"
          using dn V'' xd by auto
        ultimately show ?thesis
          using inv'' sub V''(1) unfolding I_def s' carvePost_def by auto
      qed
      ultimately show ?thesis by blast
    qed
  qed
  obtain s' where fe: "forEachF ?dirs (carveBody fuel rnd cR cC (fst m) (snd m))
        (g1, (nat cR, ?V1), ?k1) = Some (Inr s')" and Is: "I ([] @ ?dirs) s'"
    using forEachF_total[of I "[]" "(g1, (nat cR, ?V1), ?k1)" ?dirs
        "carveBody fuel rnd cR cC (fst m) (snd m)", OF I0 step] by blast
  have "carveFrom (Suc fuel) rnd cR cC (fst m) (snd m) (g, (nat cR, V), k) = Some (Inr s')"
    unfolding carveFrom_Suc using ms g1 fe by simp
  moreover have "carvePost cR cC V ?V1 s'"
  proof -
    obtain g' V' k' where s': "s' = (g', (nat cR, V'), k')" and inv: "carveInv cR cC g' V'"
      and sub: "?V1 \<subseteq> V'" and cl: "\<forall>a \<in> V' - ?V1. closedAt cR cC V' a"
      and dn: "\<forall>d \<in> set ?dirs. (fst m + fst d, snd m + snd d) \<in> rooms cR cC \<longrightarrow>
          (fst m + fst d, snd m + snd d) \<in> V'"
      using Is by (auto simp: I_def carvePost_def)
    have "closedAt cR cC V' m" using dn unfolding sd closedAt_def .
    then have "\<forall>a \<in> V' - V. closedAt cR cC V' a" using cl by auto
    then show ?thesis using inv sub unfolding s' carvePost_def by auto
  qed
  ultimately show ?case by blast
qed

subsection \<open>The initial grid\<close>

lemma wallGrid_nth:
  assumes "i < rows" and "j < cols"
  shows "wallGrid rows cols ! i ! j = \<lparr>row = int i, col = int j, type = Wall\<rparr>"
  using assms by (simp add: wallGrid_def)

lemma wallGrid_shape:
  assumes "0 \<le> cR" and "0 \<le> cC"
  shows "mazeShape cR cC (wallGrid (nat (2 * cR + 1)) (nat (2 * cC + 1)))"
  unfolding mazeShape_def by (simp add: wallGrid_def)

lemma wallGrid_only: "onlyWallPassage (wallGrid rows cols)"
  by (auto simp: onlyWallPassage_def wallGrid_def)

lemma wallGrid_cellType:
  assumes "p \<in> fullRange cR cC"
  shows "cellType (wallGrid (nat (2 * cR + 1)) (nat (2 * cC + 1))) p = Wall"
proof -
  have "nat (fst p) < nat (2 * cR + 1)" "nat (snd p) < nat (2 * cC + 1)"
    using assms by (auto simp: fullRange_def)
  then show ?thesis by (simp add: cellType_def wallGrid_nth)
qed

lemma wallGrid_pre:
  assumes "0 < cR" and "0 < cC"
  shows "carvePre cR cC (wallGrid (nat (2 * cR + 1)) (nat (2 * cC + 1))) {} (0, 0)"
proof -
  let ?g = "wallGrid (nat (2 * cR + 1)) (nat (2 * cC + 1))"
  have w: "\<And>p. p \<in> fullRange cR cC \<Longrightarrow> cellType ?g p = Wall"
    by (rule wallGrid_cellType)
  have adj: "roomAdj cR cC ?g = {}"
    using w wallCell_range by (auto simp: roomAdj_def)
  have ow: "openWalls cR cC ?g = {}"
    using w wallCells_range[of cR cC] by (auto simp: openWalls_def)
  have "roomsMarked cR cC ?g {}"
    unfolding roomsMarked_def
    using assms w roomCell_range wallGrid_shape[of cR cC] wallGrid_only by auto
  moreover have "(0, 0) \<in> rooms cR cC" using assms by (simp add: rooms_def)
  moreover have "treeInv cR cC ?g (insert (0, 0) {})"
    unfolding treeInv_def adj ow by (simp add: connectedOn_def bridges_def)
  ultimately show ?thesis by (simp add: carvePre_def)
qed

subsection \<open>Every room is reached\<close>

lemma closed_all_rooms:
  assumes "V \<subseteq> rooms cR cC" and "(0, 0) \<in> V" and "\<forall>a \<in> V. closedAt cR cC V a"
  shows "V = rooms cR cC"
proof -
  have col0: "0 \<le> r \<Longrightarrow> r < cR \<longrightarrow> (r, 0) \<in> V" for r
  proof (induction r rule: int_ge_induct)
    case base
    then show ?case using assms(2) by simp
  next
    case (step i)
    show ?case
    proof
      assume lt: "i + 1 < cR"
      then have iV: "(i, 0) \<in> V" using step by simp
      then have "0 < cC" using assms(1) by (auto simp: rooms_def)
      then have "(i + 1, 0) \<in> rooms cR cC" using step lt by (simp add: rooms_def)
      then show "(i + 1, 0) \<in> V"
        using assms(3) iV by (auto simp: closedAt_def dirs0_def)
    qed
  qed
  have all: "0 \<le> c \<Longrightarrow> 0 \<le> r \<and> r < cR \<and> c < cC \<longrightarrow> (r, c) \<in> V" for r c
  proof (induction c rule: int_ge_induct)
    case base
    then show ?case using col0 by simp
  next
    case (step i)
    show ?case
    proof
      assume h: "0 \<le> r \<and> r < cR \<and> i + 1 < cC"
      then have iV: "(r, i) \<in> V" using step by simp
      have "(r, i + 1) \<in> rooms cR cC" using step h by (simp add: rooms_def)
      then show "(r, i + 1) \<in> V"
        using assms(3) iV by (auto simp: closedAt_def dirs0_def)
    qed
  qed
  show ?thesis using assms(1) all by (auto simp: rooms_def)
qed

lemma card_rooms: "card (rooms cR cC) = nat cR * nat cC"
  by (simp add: rooms_def)

subsection \<open>Counting cells of a type\<close>

lemma count_update:
  assumes "j < length xs"
  shows "length (filter P (xs[j := y])) + (if P (xs ! j) then 1 else 0) =
         length (filter P xs) + (if P y then 1 else 0)"
  using assms
proof (induction xs arbitrary: j)
  case Nil
  then show ?case by simp
next
  case (Cons a xs)
  show ?case
  proof (cases j)
    case 0
    then show ?thesis by simp
  next
    case (Suc j')
    then show ?thesis using Cons.IH[of j'] Cons.prems by simp
  qed
qed

lemma sum_list_update_nat:
  fixes xs :: "nat list"
  assumes "i < length xs"
  shows "sum_list (xs[i := y]) + xs ! i = sum_list xs + y"
  using assms
proof (induction xs arbitrary: i)
  case Nil
  then show ?case by simp
next
  case (Cons a xs)
  show ?case
  proof (cases i)
    case 0
    then show ?thesis by simp
  next
    case (Suc i')
    then show ?thesis using Cons.IH[of i'] Cons.prems by simp
  qed
qed

lemma countType_sum:
  "countType t g = sum_list (map (\<lambda>cells. length (filter (\<lambda>c. type c = t) cells)) g)"
  by (simp add: countType_def filter_concat length_concat comp_def)

lemma setType_count:
  assumes "setType g r c t = Inr g'"
  shows "countType u g' + (if cellType g (r, c) = u then 1 else 0) =
         countType u g + (if t = u then 1 else 0)"
proof -
  let ?P = "\<lambda>x. type x = u"
  let ?f = "\<lambda>cells. length (filter ?P cells)"
  let ?cells = "g ! nat r"
  let ?cells' = "?cells[nat c := (?cells ! nat c)\<lparr>type := t\<rparr>]"
  have r: "nat r < length g" and c: "nat c < length ?cells" and g': "g' = g[nat r := ?cells']"
    using assms by (auto simp: setType_def split: if_splits)
  have a: "?f ?cells' + (if cellType g (r, c) = u then 1 else 0) =
      ?f ?cells + (if t = u then 1 else 0)"
    using count_update[OF c, of ?P "(?cells ! nat c)\<lparr>type := t\<rparr>"] by (simp add: cellType_def)
  have "map ?f g' = (map ?f g)[nat r := ?f ?cells']"
    unfolding g' by (simp add: map_update)
  then have "sum_list (map ?f g') + ?f ?cells = sum_list (map ?f g) + ?f ?cells'"
    using r sum_list_update_nat[of "nat r" "map ?f g" "?f ?cells'"] by simp
  then show ?thesis unfolding countType_sum using a by linarith
qed

lemma onlyWallPassage_count:
  assumes "onlyWallPassage g" and "u \<noteq> Wall" and "u \<noteq> Passage"
  shows "countType u g = 0"
  using assms by (auto simp: countType_0 onlyWallPassage_def)

subsection \<open>The generated maze\<close>

definition clamp :: "int \<Rightarrow> int" where
  "clamp n = min 50 (max 5 n)"

lemma clamp_bounds: "5 \<le> clamp n" "clamp n \<le> 50"
  by (simp_all add: clamp_def)

lemma border_not_wallCell:
  "(1, 0) \<notin> wallCells cR cC" "(2 * cR - 1, 2 * cC) \<notin> wallCells cR cC"
  "(2 * cR, 2 * cC) \<notin> wallCells cR cC"
  by (auto simp: wallCells_def wallCell_def rooms_def)

lemma border_not_roomCell:
  "(1, 0) \<notin> roomCell ` rooms cR cC" "(2 * cR - 1, 2 * cC) \<notin> roomCell ` rooms cR cC"
  "(2 * cR, 2 * cC) \<notin> roomCell ` rooms cR cC"
  by (auto simp: roomCell_def rooms_def)

lemma generate_result:
  fixes rows cols :: int
  defines "cR \<equiv> clamp rows" and "cC \<equiv> clamp cols"
  assumes fuel: "nat cR * nat cC \<le> fuel"
  shows "\<exists>g. generatePerfectMaze fuel rnd rows cols = Some (Inr g) \<and>
           mazeShape cR cC g \<and>
           cellType g (1, 0) = Start \<and>
           cellType g (2 * cR - 1, 2 * cC) = End \<and>
           cellType g (2 * cR, 2 * cC) = Wall \<and>
           (\<forall>m \<in> rooms cR cC. cellType g (roomCell m) = Passage) \<and>
           treeInv cR cC g (rooms cR cC) \<and>
           countType Start g = 1 \<and> countType End g = 1"
proof -
  have pos: "0 < cR" "0 < cC" using clamp_bounds[of rows] clamp_bounds[of cols]
    by (simp_all add: cR_def cC_def)
  let ?g0 = "wallGrid (nat (2 * cR + 1)) (nat (2 * cC + 1))"
  have pre: "carvePre cR cC ?g0 {} (0, 0)" using pos by (rule wallGrid_pre)
  have c: "card (rooms cR cC - {}) \<le> fuel" using fuel by (simp add: card_rooms)
  obtain s' where cf: "carveFrom fuel rnd cR cC (fst (0::int, 0::int)) (snd (0::int, 0::int))
        (?g0, (nat cR, {}), 0) = Some (Inr s')"
    and post: "carvePost cR cC {} (insert (0, 0) {}) s'"
    using carveFrom_correct[OF pre c, of rnd 0] by blast
  obtain g1 V k where s': "s' = (g1, (nat cR, V), k)" and inv: "carveInv cR cC g1 V"
    and z: "(0, 0) \<in> V" and cl: "\<forall>a \<in> V. closedAt cR cC V a"
    using post by (auto simp: carvePost_def)
  have rm: "roomsMarked cR cC g1 V" and t: "treeInv cR cC g1 V"
    using inv by (simp_all add: carveInv_def)
  have V: "V = rooms cR cC"
    using rm z cl by (intro closed_all_rooms) (auto simp: roomsMarked_def)
  have sh1: "mazeShape cR cC g1" using rm by (simp add: roomsMarked_def)
  have in1: "(1, 0) \<in> fullRange cR cC" and in2: "(2 * cR - 1, 2 * cC) \<in> fullRange cR cC"
    and in3: "(2 * cR, 2 * cC) \<in> fullRange cR cC"
    using pos by (auto simp: fullRange_def)
  obtain g2 where g2: "setType g1 1 0 Start = Inr g2" and sh2: "mazeShape cR cC g2"
    and ct2: "\<forall>p \<in> fullRange cR cC. cellType g2 p = (if p = (1, 0) then Start else cellType g1 p)"
    using setType_ok[OF sh1 in1, of Start] by blast
  obtain g3 where g3: "setType g2 (2 * cR - 1) (2 * cC) End = Inr g3" and sh3: "mazeShape cR cC g3"
    and ct3: "\<forall>p \<in> fullRange cR cC.
        cellType g3 p = (if p = (2 * cR - 1, 2 * cC) then End else cellType g2 p)"
    using setType_ok[OF sh2 in2, of End] by blast
  have ct: "\<And>p. p \<in> fullRange cR cC \<Longrightarrow>
      cellType g3 p = (if p = (2 * cR - 1, 2 * cC) then End
                       else if p = (1, 0) then Start else cellType g1 p)"
    using ct2 ct3 by simp
  have gen: "generatePerfectMaze fuel rnd rows cols = Some (Inr g3)"
  proof -
    have "2 * cR + 1 - 2 = 2 * cR - 1" "2 * cC + 1 - 1 = 2 * cC" by simp_all
    then show ?thesis
      using cf g2 g3 unfolding generatePerfectMaze_def s' cR_def cC_def clamp_def newMatrix_def
      by (simp add: Let_def)
  qed
  have walls: "\<forall>w \<in> wallCells cR cC. cellType g3 w = cellType g1 w"
    using ct wallCells_range[of cR cC] border_not_wallCell[of cR cC] by auto
  note w = walls_unchanged[OF walls]
  have tree: "treeInv cR cC g3 (rooms cR cC)"
    using t unfolding treeInv_def w V .
  have roomsP: "\<forall>m \<in> rooms cR cC. cellType g3 (roomCell m) = Passage"
  proof
    fix m assume m: "m \<in> rooms cR cC"
    then have "cellType g1 (roomCell m) = Passage" using rm V by (simp add: roomsMarked_def)
    moreover have "roomCell m \<noteq> (1, 0)" "roomCell m \<noteq> (2 * cR - 1, 2 * cC)"
      using border_not_roomCell[of cR cC] m by (metis imageI)+
    ultimately show "cellType g3 (roomCell m) = Passage"
      using ct[OF roomCell_range[OF m]] by simp
  qed
  have corner: "cellType g3 (2 * cR, 2 * cC) = Wall"
  proof -
    have "cellType g1 (2 * cR, 2 * cC) = Wall"
      using rm in3 border_not_wallCell(3)[of cR cC] border_not_roomCell(3)[of cR cC]
      by (simp add: roomsMarked_def)
    then show ?thesis using ct[OF in3] pos by simp
  qed
  have only1: "onlyWallPassage g1" using rm by (simp add: roomsMarked_def)
  have old1: "cellType g1 (1, 0) = Wall"
    using rm in1 border_not_wallCell(1)[of cR cC] border_not_roomCell(1)[of cR cC]
    by (simp add: roomsMarked_def)
  have old2: "cellType g2 (2 * cR - 1, 2 * cC) = Wall"
  proof -
    have "cellType g1 (2 * cR - 1, 2 * cC) = Wall"
      using rm in2 border_not_wallCell(2)[of cR cC] border_not_roomCell(2)[of cR cC]
      by (simp add: roomsMarked_def)
    then show ?thesis using ct2 in2 pos by simp
  qed
  have cS: "countType Start g3 = 1" and cE: "countType End g3 = 1"
    using setType_count[OF g2, of Start] setType_count[OF g2, of End]
      setType_count[OF g3, of Start] setType_count[OF g3, of End]
      onlyWallPassage_count[OF only1, of Start] onlyWallPassage_count[OF only1, of End]
      old1 old2
    by simp_all
  show ?thesis
    using gen sh3 ct[OF in1] ct[OF in2] corner roomsP tree cS cE pos by auto
qed

subsection \<open>The depth bound is immaterial\<close>

declare carveFrom.simps [simp del]

lemma forEachF_mono:
  assumes "forEachF xs body s = Some r"
    and "\<And>x t u. x \<in> set xs \<Longrightarrow> body x t = Some u \<Longrightarrow> body' x t = Some u"
  shows "forEachF xs body' s = Some r"
  using assms
proof (induction xs arbitrary: s)
  case Nil
  then show ?case by simp
next
  case (Cons x xs)
  from Cons.prems(1) obtain u where u: "body x s = Some u"
    by (cases "body x s") auto
  then have u': "body' x s = Some u" using Cons.prems(2) by simp
  show ?case
  proof (cases u)
    case (Inl e)
    then show ?thesis using Cons.prems(1) u u' by auto
  next
    case (Inr t)
    then have "forEachF xs body t = Some r" using Cons.prems(1) u by simp
    then have "forEachF xs body' t = Some r"
      by (rule Cons.IH) (use Cons.prems(2) in auto)
    then show ?thesis using u' Inr by simp
  qed
qed

lemma carveFrom_Suc_mono:
  "carveFrom n rnd cR cC mr mc s = Some r \<Longrightarrow> carveFrom (Suc n) rnd cR cC mr mc s = Some r"
proof (induction n arbitrary: mr mc s r)
  case 0
  then show ?case by (simp add: carveFrom.simps)
next
  case (Suc n)
  obtain g visited k where s: "s = (g, visited, k)" by (cases s) auto
  have body: "carveBody (Suc n) rnd cR cC mr mc x t = Some u"
    if "carveBody n rnd cR cC mr mc x t = Some u" for x t u
    using that Suc.IH unfolding carveBody_def
    by (auto simp: Let_def split: prod.splits if_splits sum.splits bool.splits)
  show ?case
    using Suc.prems unfolding s carveFrom_Suc[of "Suc n"] carveFrom_Suc[of n]
    by (auto split: sum.splits intro: forEachF_mono body)
qed

lemma carveFrom_mono:
  assumes "carveFrom n rnd cR cC mr mc s = Some r" and "n \<le> n'"
  shows "carveFrom n' rnd cR cC mr mc s = Some r"
  using assms(2,1)
  by (induction rule: dec_induct) (auto intro: carveFrom_Suc_mono)

lemma generatePerfectMaze_mono:
  assumes "generatePerfectMaze n rnd rows cols = Some r" and "n \<le> n'"
  shows "generatePerfectMaze n' rnd rows cols = Some r"
proof -
  let ?cR = "min 50 (max 5 rows)" and ?cC = "min 50 (max 5 cols)"
  let ?s = "(wallGrid (nat (2 * ?cR + 1)) (nat (2 * ?cC + 1)), newMatrix (nat ?cR) (nat ?cC), 0::nat)"
  obtain u where u: "carveFrom n rnd ?cR ?cC 0 0 ?s = Some u"
    using assms(1) by (cases "carveFrom n rnd ?cR ?cC 0 0 ?s") (auto simp: generatePerfectMaze_def Let_def)
  have "carveFrom n' rnd ?cR ?cC 0 0 ?s = Some u"
    using u assms(2) by (rule carveFrom_mono)
  then show ?thesis using assms(1) u by (simp add: generatePerfectMaze_def Let_def)
qed

lemma generate_result_all:
  fixes rows cols :: int
  defines "cR \<equiv> clamp rows" and "cC \<equiv> clamp cols"
  shows "\<exists>g. (\<forall>fuel \<ge> nat cR * nat cC. generatePerfectMaze fuel rnd rows cols = Some (Inr g)) \<and>
           mazeShape cR cC g \<and>
           cellType g (1, 0) = Start \<and>
           cellType g (2 * cR - 1, 2 * cC) = End \<and>
           cellType g (2 * cR, 2 * cC) = Wall \<and>
           (\<forall>m \<in> rooms cR cC. cellType g (roomCell m) = Passage) \<and>
           treeInv cR cC g (rooms cR cC) \<and>
           countType Start g = 1 \<and> countType End g = 1"
proof -
  obtain g where g: "generatePerfectMaze (nat cR * nat cC) rnd rows cols = Some (Inr g)"
    and rest: "mazeShape cR cC g \<and>
           cellType g (1, 0) = Start \<and>
           cellType g (2 * cR - 1, 2 * cC) = End \<and>
           cellType g (2 * cR, 2 * cC) = Wall \<and>
           (\<forall>m \<in> rooms cR cC. cellType g (roomCell m) = Passage) \<and>
           treeInv cR cC g (rooms cR cC) \<and>
           countType Start g = 1 \<and> countType End g = 1"
    using generate_result[of rows cols "nat cR * nat cC" rnd] unfolding cR_def cC_def by blast
  have "\<forall>fuel \<ge> nat cR * nat cC. generatePerfectMaze fuel rnd rows cols = Some (Inr g)"
    using generatePerfectMaze_mono[OF g] by blast
  then show ?thesis using rest by blast
qed

lemma mazeShape_wf:
  assumes "mazeShape cR cC g" and "0 \<le> cR"
  shows "wf_grid g"
proof -
  have lg: "length g = nat (2 * cR + 1)"
    and lr: "\<And>i. i < length g \<Longrightarrow> length (g ! i) = nat (2 * cC + 1)"
    and fl: "\<And>i j. i < length g \<Longrightarrow> j < nat (2 * cC + 1) \<Longrightarrow>
               row (g ! i ! j) = int i \<and> col (g ! i ! j) = int j"
    using assms(1) by (auto simp: mazeShape_def)
  have ne: "g \<noteq> []" using lg assms(2) by auto
  then have hd: "length (hd g) = nat (2 * cC + 1)" using lr[of 0] by (simp add: hd_conv_nth)
  show ?thesis
    unfolding wf_grid_def list_all_iff
    using ne hd lr fl by (auto simp: in_set_enumerate_eq)
qed

subsection \<open>The properties of the generator\<close>

definition zeroDraws :: "nat \<Rightarrow> nat" where
  "zeroDraws k = 0"

definition generatedType :: "nat \<Rightarrow> (nat \<Rightarrow> nat) \<Rightarrow> int \<Rightarrow> int \<Rightarrow> int \<times> int \<Rightarrow> CellType option" where
  "generatedType fuel rnd rows cols p =
     (case generatePerfectMaze fuel rnd rows cols of
        Some (Inr g) \<Rightarrow> Some (cellType g p)
      | _ \<Rightarrow> None)"

text \<open>
  Claim C9. For all integers \<open>rows\<close> and \<open>cols\<close> and all random draws, the generator
  returns, for every recursion depth of at least \<open>R * C\<close> and always the same grid: a
  grid of \<open>2 * R + 1\<close> rows of \<open>2 * C + 1\<close> cells each, where \<open>R = min 50 (max 5 rows)\<close> and
  \<open>C = min 50 (max 5 cols)\<close>, whose cells carry their indices, with exactly one cell of type
  start and exactly one of type end. No exception is raised.
\<close>

theorem generate_total:
  "\<exists>g. (\<forall>fuel \<ge> nat (clamp rows) * nat (clamp cols).
           generatePerfectMaze fuel rnd rows cols = Some (Inr g)) \<and>
        length g = nat (2 * clamp rows + 1) \<and>
        (\<forall>cells \<in> set g. length cells = nat (2 * clamp cols + 1)) \<and>
        wf_grid g \<and> countType Start g = 1 \<and> countType End g = 1"
proof -
  obtain g where g: "\<forall>fuel \<ge> nat (clamp rows) * nat (clamp cols).
           generatePerfectMaze fuel rnd rows cols = Some (Inr g)"
    and sh: "mazeShape (clamp rows) (clamp cols) g"
    and c: "countType Start g = 1" "countType End g = 1"
    using generate_result_all[of rows cols rnd] by blast
  have "wf_grid g" using sh clamp_bounds(1)[of rows] by (intro mazeShape_wf) auto
  moreover have "\<forall>cells \<in> set g. length cells = nat (2 * clamp cols + 1)"
    using sh by (auto simp: mazeShape_def in_set_conv_nth)
  moreover have "length g = nat (2 * clamp rows + 1)" using sh by (simp add: mazeShape_def)
  ultimately show ?thesis using g c by blast
qed

theorem generate_total_witness:
  "\<exists>g. generatePerfectMaze 2500 zeroDraws 100 (- 3) = Some (Inr g) \<and>
        length g = 101 \<and> (\<forall>cells \<in> set g. length cells = 11) \<and>
        countType Start g = 1 \<and> countType End g = 1"
proof -
  have c: "clamp 100 = 50" "clamp (- 3) = 5" by (simp_all add: clamp_def)
  from generate_total[of 100 "- 3" zeroDraws, unfolded c]
  obtain g where g: "\<forall>fuel \<ge> nat 50 * nat 5. generatePerfectMaze fuel zeroDraws 100 (- 3) = Some (Inr g)"
    and p: "length g = nat (2 * 50 + 1)" "\<forall>cells \<in> set g. length cells = nat (2 * 5 + 1)"
      "countType Start g = 1" "countType End g = 1"
    by blast
  have "generatePerfectMaze 2500 zeroDraws 100 (- 3) = Some (Inr g)" using g by simp
  then show ?thesis using p by auto
qed

text \<open>
  Claim C3, as amended. After generation the cell at grid position \<open>(1, 0)\<close> has type start
  and the cell at \<open>(2 * R - 1, 2 * C)\<close>, the opening of the bottom-right room to the right
  edge, has type end, whatever was carved. The cell at \<open>(2 * R, 2 * C)\<close> is the
  bottom-right corner of the grid and is a wall.
\<close>

theorem start_end_cells:
  "\<exists>g. (\<forall>fuel \<ge> nat (clamp rows) * nat (clamp cols).
           generatePerfectMaze fuel rnd rows cols = Some (Inr g)) \<and>
        cellType g (1, 0) = Start \<and>
        cellType g (2 * clamp rows - 1, 2 * clamp cols) = End \<and>
        cellType g (2 * clamp rows, 2 * clamp cols) = Wall"
  using generate_result_all[of rows cols rnd] by blast

theorem start_end_cells_witness:
  "\<exists>g. generatePerfectMaze 35 zeroDraws 7 3 = Some (Inr g) \<and>
        cellType g (1, 0) = Start \<and> cellType g (13, 10) = End \<and> cellType g (14, 10) = Wall"
proof -
  have c: "clamp 7 = 7" "clamp 3 = 5" by (simp_all add: clamp_def)
  from start_end_cells[of 7 3 zeroDraws, unfolded c]
  obtain g where g: "\<forall>fuel \<ge> nat 7 * nat 5. generatePerfectMaze fuel zeroDraws 7 3 = Some (Inr g)"
    and p: "cellType g (1, 0) = Start" "cellType g (2 * 7 - 1, 2 * 5) = End"
      "cellType g (2 * 7, 2 * 5) = Wall"
    by blast
  have "generatePerfectMaze 35 zeroDraws 7 3 = Some (Inr g)" using g by simp
  then show ?thesis using p by auto
qed

text \<open>
  Claim C3 as stated fails: for \<open>rows = cols = 5\<close> the cell at \<open>(2 * 5, 2 * 5)\<close> of the
  generated grid is a wall, and the end cell is at \<open>(9, 10)\<close>.
\<close>

theorem end_cell_counterexample:
  "generatedType 25 zeroDraws 5 5 (2 * 5, 2 * 5) = Some Wall \<and>
   generatedType 25 zeroDraws 5 5 (9, 10) = Some End"
proof -
  have c: "clamp 5 = 5" by (simp add: clamp_def)
  from generate_result_all[of 5 5 zeroDraws, unfolded c]
  obtain g where g: "\<forall>fuel \<ge> nat 5 * nat 5. generatePerfectMaze fuel zeroDraws 5 5 = Some (Inr g)"
    and p: "cellType g (2 * 5 - 1, 2 * 5) = End" "cellType g (2 * 5, 2 * 5) = Wall"
    by blast
  have "generatePerfectMaze 25 zeroDraws 5 5 = Some (Inr g)" using g by simp
  then show ?thesis using p by (simp add: generatedType_def)
qed

text \<open>
  Claim C5. For all inputs and all random draws, the rooms of the generated grid, joined
  where the wall cell between two adjacent rooms is a passage, form a connected and
  acyclic graph, and exactly \<open>R * C - 1\<close> of the wall cells between adjacent rooms are
  passages.
\<close>

theorem perfect_maze:
  "\<exists>g. (\<forall>fuel \<ge> nat (clamp rows) * nat (clamp cols).
           generatePerfectMaze fuel rnd rows cols = Some (Inr g)) \<and>
        connectedOn (rooms (clamp rows) (clamp cols)) (roomAdj (clamp rows) (clamp cols) g) \<and>
        acyclicGraph (roomAdj (clamp rows) (clamp cols) g) \<and>
        int (card (openWalls (clamp rows) (clamp cols) g)) = clamp rows * clamp cols - 1"
proof -
  let ?R = "clamp rows" and ?C = "clamp cols"
  obtain g where g: "\<forall>fuel \<ge> nat ?R * nat ?C. generatePerfectMaze fuel rnd rows cols = Some (Inr g)"
    and t: "treeInv ?R ?C g (rooms ?R ?C)"
    using generate_result_all[of rows cols rnd] by blast
  have "acyclicGraph (roomAdj ?R ?C g)"
    using t sym_roomAdj by (intro bridges_acyclic) (auto simp: treeInv_def)
  moreover have "int (card (openWalls ?R ?C g)) = ?R * ?C - 1"
  proof -
    have "card (openWalls ?R ?C g) + 1 = nat ?R * nat ?C"
      using t by (simp add: treeInv_def card_rooms)
    then have "int (card (openWalls ?R ?C g) + 1) = int (nat ?R * nat ?C)"
      by (rule arg_cong)
    then have "int (card (openWalls ?R ?C g)) + 1 = int (nat ?R) * int (nat ?C)"
      by (simp only: of_nat_add of_nat_mult of_nat_1)
    then show ?thesis using clamp_bounds(1)[of rows] clamp_bounds(1)[of cols] by simp
  qed
  moreover have "connectedOn (rooms ?R ?C) (roomAdj ?R ?C g)" using t by (simp add: treeInv_def)
  ultimately show ?thesis using g by blast
qed

theorem perfect_maze_witness:
  "\<exists>g. generatePerfectMaze 25 zeroDraws 5 5 = Some (Inr g) \<and>
        connectedOn (rooms 5 5) (roomAdj 5 5 g) \<and> acyclicGraph (roomAdj 5 5 g) \<and>
        int (card (openWalls 5 5 g)) = 24"
proof -
  have c: "clamp 5 = 5" by (simp add: clamp_def)
  from perfect_maze[of 5 5 zeroDraws, unfolded c]
  obtain g where g: "\<forall>fuel \<ge> nat 5 * nat 5. generatePerfectMaze fuel zeroDraws 5 5 = Some (Inr g)"
    and p: "connectedOn (rooms 5 5) (roomAdj 5 5 g)" "acyclicGraph (roomAdj 5 5 g)"
      "int (card (openWalls 5 5 g)) = 5 * 5 - 1"
    by blast
  have "generatePerfectMaze 25 zeroDraws 5 5 = Some (Inr g)" using g by simp
  then show ?thesis using p by auto
qed

section \<open>The passage graph of a grid\<close>

text \<open>
  The positions a search may step to from \<open>p\<close>: the four neighbours that lie in the grid
  and are not walls. On a well-formed grid this is what \<^verbatim>\<open>getNeighbors\<close> returns.
\<close>

definition nbrs :: "Grid \<Rightarrow> Position \<Rightarrow> Position list" where
  "nbrs g p = filter (\<lambda>n. passable g (posKey n)) (fourNeighbors p)"

definition edges :: "Grid \<Rightarrow> (Position \<times> Position) set" where
  "edges g = {(p, n). n \<in> set (nbrs g p)}"

lemma posKey_inj [simp]: "posKey (p :: Position) = posKey q \<longleftrightarrow> p = q"
  by (cases p; cases q) (simp add: posKey_def)

lemma getNeighbors_nbrs: "wf_grid g \<Longrightarrow> getNeighbors g p = Inr (nbrs g p)"
  by (simp add: getNeighbors_wf nbrs_def)

lemma distinct_nbrs: "distinct (nbrs g p)"
  unfolding nbrs_def
  by (rule distinct_filter) (simp add: fourNeighbors_def deltas_def)

lemma nbrs_rows: "n \<in> set (nbrs g p) \<Longrightarrow> 0 \<le> row n \<and> row n < int (length g)"
  unfolding nbrs_def by (rule fourNeighbors_rows)

lemma closed_reachable:
  assumes "(s, p) \<in> (edges g)\<^sup>*" and "s \<in> A"
    and "\<And>u v. u \<in> A \<Longrightarrow> (u, v) \<in> edges g \<Longrightarrow> v \<in> A"
  shows "p \<in> A"
  using assms(1)
  by (induction rule: rtrancl_induct) (use assms(2,3) in auto)

subsection \<open>Parent pointers\<close>

text \<open>
  The parent map of a search is a tree rooted at the start: the start has the parent
  \<^verbatim>\<open>null\<close>, every other key has a parent that is a key of the map and from which it is
  one step away, one level deeper.
\<close>

definition parentTree ::
  "Grid \<Rightarrow> Position \<Rightarrow> (Position \<Rightarrow> nat) \<Rightarrow> ParentMap \<Rightarrow> bool" where
  "parentTree g s dp parent =
     (parent (posKey s) = Some None \<and> dp s = 0 \<and>
      (\<forall>v. posKey v \<in> dom parent \<longrightarrow> v \<noteq> s \<longrightarrow>
         (\<exists>u. parent (posKey v) = Some (Some u) \<and> posKey u \<in> dom parent \<and>
              (u, v) \<in> edges g \<and> dp v = Suc (dp u))))"

lemma walk_snoc:
  assumes "walk E xs" and "xs \<noteq> []" and "(last xs, y) \<in> E"
  shows "walk E (xs @ [y])"
  using assms
  by (induction E xs rule: walk.induct) auto

lemma buildPath_chain:
  assumes "parentTree g s dp parent" and "posKey v \<in> dom parent" and "dp v = n"
  shows "\<exists>ps. buildPath parent (Some v) acc = Some (acc @ ps) \<and> length ps = n + 1 \<and>
           hd ps = v \<and> last ps = s \<and> walk (edges g) (rev ps)"
  using assms(2,3)
proof (induction n arbitrary: v acc)
  case 0
  have vs: "v = s"
  proof (rule ccontr)
    assume "v \<noteq> s"
    then obtain u where "dp v = Suc (dp u)"
      using assms(1) "0.prems"(1) by (auto simp: parentTree_def)
    then show False using "0.prems"(2) by simp
  qed
  have "getParent parent s = None" using assms(1) by (simp add: getParent_def parentTree_def)
  then have "buildPath parent (Some s) acc = Some (acc @ [s])"
    by (simp add: buildPath.simps[of parent "Some s"] buildPath.simps[of parent None])
  then show ?case using vs by simp
next
  case (Suc n)
  have "v \<noteq> s" using assms(1) Suc.prems(2) by (auto simp: parentTree_def)
  then obtain u where u: "parent (posKey v) = Some (Some u)" "posKey u \<in> dom parent"
    "(u, v) \<in> edges g" "dp v = Suc (dp u)"
    using assms(1) Suc.prems(1) by (auto simp: parentTree_def)
  have du: "dp u = n" using u(4) Suc.prems(2) by simp
  obtain ps where ps: "buildPath parent (Some u) (acc @ [v]) = Some ((acc @ [v]) @ ps)"
    "length ps = n + 1" "hd ps = u" "last ps = s" "walk (edges g) (rev ps)"
    using Suc.IH[OF u(2) du, of "acc @ [v]"] by blast
  have ne: "ps \<noteq> []" using ps(2) by auto
  have "getParent parent v = Some u" using u(1) by (simp add: getParent_def)
  then have "buildPath parent (Some v) acc = Some (acc @ v # ps)"
    using ps(1) by (simp add: buildPath.simps[of parent "Some v"])
  moreover have "walk (edges g) (rev (v # ps))"
    using walk_snoc[OF ps(5), of v] ne ps(3) u(3) by (simp add: last_rev)
  ultimately show ?case using ps(2,4) ne by (intro exI[of _ "v # ps"]) simp
qed

text \<open>What \<^verbatim>\<open>bfs\<close> and \<^verbatim>\<open>dfs\<close> return from the parent map and the visited order.\<close>

lemma reconstruct_found:
  assumes "parentTree g s dp parent" and "posKey e \<in> dom parent"
  shows "\<exists>ps. reconstruct parent e order = Some (Inr \<lparr>path = Some ps, visitedOrder = order\<rparr>) \<and>
           length ps = dp e + 1 \<and> hd ps = s \<and> last ps = e \<and> walk (edges g) ps"
proof -
  obtain ps where ps: "buildPath parent (Some e) [] = Some ([] @ ps)" "length ps = dp e + 1"
    "hd ps = e" "last ps = s" "walk (edges g) (rev ps)"
    using buildPath_chain[OF assms refl, of "[]"] by blast
  have ne: "ps \<noteq> []" using ps(2) by auto
  have "reconstruct parent e order = Some (Inr \<lparr>path = Some (rev ps), visitedOrder = order\<rparr>)"
    using assms(2) ps(1) by (simp add: reconstruct_def)
  then show ?thesis
    using ps ne by (intro exI[of _ "rev ps"]) (simp add: hd_rev last_rev)
qed

lemma reconstruct_none:
  assumes "posKey e \<notin> dom parent"
  shows "reconstruct parent e order = Some (Inr \<lparr>path = None, visitedOrder = order\<rparr>)"
  using assms by (simp add: reconstruct_def)

subsection \<open>The endpoints of a well-formed grid\<close>

lemma fold_scanCell_fst_Some:
  assumes "fst (fold scanCell cells se) = Some s"
  shows "fst se = Some s \<or> (\<exists>c \<in> set cells. type c = Start \<and> s = \<lparr>row = row c, col = col c\<rparr>)"
  using assms
  by (induction cells arbitrary: se) (fastforce simp: scanCell_def Let_def split: if_splits)+

lemma fold_scanCell_snd_Some:
  assumes "snd (fold scanCell cells se) = Some e"
  shows "snd se = Some e \<or> (\<exists>c \<in> set cells. type c = End \<and> e = \<lparr>row = row c, col = col c\<rparr>)"
  using assms
  by (induction cells arbitrary: se) (fastforce simp: scanCell_def Let_def split: if_splits)+

lemma wf_grid_cell_pos:
  assumes "wf_grid g" and "c \<in> set (concat g)"
  shows "posKey c \<in> gridRange g \<and> cellType g (posKey c) = type c"
proof -
  obtain cells where cells: "cells \<in> set g" "c \<in> set cells" using assms(2) by auto
  then obtain i j where i: "i < length g" "cells = g ! i" and j: "j < length cells" "c = cells ! j"
    by (metis in_set_conv_nth)
  have len: "length (g ! i) = length (hd g)" using assms(1) i(1) by (rule wf_grid_row)
  then have jj: "j < length (hd g)" using j(1) i(2) by simp
  have rc: "row c = int i" "col c = int j"
    using wf_grid_cell[OF assms(1) i(1) jj] i(2) j(2) by simp_all
  show ?thesis
    using rc i j jj by (simp add: posKey_def gridRange_def cellType_def)
qed

lemma findStartEnd_wf:
  assumes "wf_grid g" and "findStartEnd g = Inr (s, e)"
  shows "posKey s \<in> gridRange g" and "cellType g (posKey s) = Start"
    and "posKey e \<in> gridRange g" and "cellType g (posKey e) = End"
proof -
  have f: "fold scanCell (concat g) (None, None) = (Some s, Some e)"
    using assms(2) unfolding findStartEnd_concat by (auto split: prod.splits option.splits)
  obtain c where c: "c \<in> set (concat g)" "type c = Start" "s = \<lparr>row = row c, col = col c\<rparr>"
    using fold_scanCell_fst_Some[of "concat g" "(None, None)" s] f by auto
  obtain d where d: "d \<in> set (concat g)" "type d = End" "e = \<lparr>row = row d, col = col d\<rparr>"
    using fold_scanCell_snd_Some[of "concat g" "(None, None)" e] f by auto
  have ks: "posKey s = posKey c" and ke: "posKey e = posKey d"
    using c(3) d(3) by (simp_all add: posKey_def)
  show "posKey s \<in> gridRange g" "cellType g (posKey s) = Start"
    using wf_grid_cell_pos[OF assms(1) c(1)] c(2) unfolding ks by simp_all
  show "posKey e \<in> gridRange g" "cellType g (posKey e) = End"
    using wf_grid_cell_pos[OF assms(1) d(1)] d(2) unfolding ke by simp_all
qed

lemma findStartEnd_exists:
  assumes "countType Start g = 1" and "countType End g = 1"
  shows "\<exists>s e. findStartEnd g = Inr (s, e)"
proof (cases "findStartEnd g")
  case (Inl err)
  then show ?thesis using findStartEnd_Inl[of g err] assms by simp
next
  case (Inr se)
  then show ?thesis by (cases se) auto
qed

subsection \<open>What a search returns\<close>

text \<open>
  The outcome of a search loop from \<open>s\<close> for \<open>e\<close>: the parent map is a tree rooted at \<open>s\<close>,
  and either \<open>e\<close> is a key of it and is reachable, or \<open>e\<close> is no key, is unreachable, and
  the visited order holds exactly the positions reachable from \<open>s\<close>.
\<close>

definition searchResult ::
  "Grid \<Rightarrow> Position \<Rightarrow> Position \<Rightarrow> (Position \<Rightarrow> nat) \<Rightarrow> ParentMap \<times> Position list \<Rightarrow> bool" where
  "searchResult g s e dp r =
     (parentTree g s dp (fst r) \<and>
      ((posKey e \<in> dom (fst r) \<and> (s, e) \<in> (edges g)\<^sup>*) \<or>
       (posKey e \<notin> dom (fst r) \<and> (s, e) \<notin> (edges g)\<^sup>* \<and>
        set (snd r) = {p. (s, p) \<in> (edges g)\<^sup>*})))"

subsection \<open>The depth-first loop\<close>

definition dfsInv ::
  "Grid \<Rightarrow> Position \<Rightarrow> Position \<Rightarrow> (Position \<Rightarrow> nat)
   \<Rightarrow> Position list \<times> BoolMatrix \<times> ParentMap \<times> Position list \<Rightarrow> bool" where
  "dfsInv g s e dp st =
     (case st of (stack, visited, parent, order) \<Rightarrow>
        fst visited = length g \<and>
        snd visited = posKey ` set order \<and>
        dom parent = posKey ` (set order \<union> set stack) \<and>
        parentTree g s dp parent \<and>
        (\<forall>u \<in> set order. \<forall>v. (u, v) \<in> edges g \<longrightarrow> v \<in> set order \<union> set stack) \<and>
        (\<forall>v \<in> set order \<union> set stack. (s, v) \<in> (edges g)\<^sup>*) \<and>
        e \<notin> set order \<and>
        (\<forall>v \<in> set stack. 0 \<le> row v \<and> row v < int (length g)))"

lemma parentTree_start: "parentTree g s dp parent \<Longrightarrow> posKey s \<in> dom parent"
  by (auto simp: parentTree_def)

lemma dfsInv_skip:
  assumes "dfsInv g s e dp (stack, (rows, V), parent, order)" and "stack \<noteq> []"
    and "posKey (last stack) \<in> V"
  shows "dfsInv g s e dp (butlast stack, (rows, V), parent, order)"
proof -
  have V: "V = posKey ` set order" using assms(1) by (simp add: dfsInv_def)
  then have lo: "last stack \<in> set order" using assms(3) by auto
  have st: "set stack = insert (last stack) (set (butlast stack))"
    using assms(2) by (metis append_butlast_last_id list.set(1,2) set_append Un_insert_right sup_bot.right_neutral)
  then have eq: "set order \<union> set stack = set order \<union> set (butlast stack)" using lo by auto
  show ?thesis
    using assms(1) unfolding dfsInv_def prod.case eq
    by (auto dest: in_set_butlastD)
qed

lemma dfsInv_push:
  assumes inv: "dfsInv g s e dp (stack, (rows, V), parent, order)" and ne: "stack \<noteq> []"
    and nv: "posKey (last stack) \<notin> V" and nend: "last stack \<noteq> e"
    and pushed: "pushed = filter (\<lambda>n. posKey n \<notin> insert (posKey (last stack)) V) (nbrs g (last stack))"
    and par: "\<forall>k. parent' k =
              (if k \<in> dom parent then parent k
               else if k \<in> posKey ` set pushed then Some (Some (last stack)) else None)"
  shows "\<exists>dp'. dfsInv g s e dp' (butlast stack @ rev pushed, (rows, insert (posKey (last stack)) V),
                  parent', order @ [last stack])"
proof -
  let ?cur = "last stack"
  let ?dp' = "\<lambda>v. if posKey v \<in> dom parent then dp v else Suc (dp ?cur)"
  have rows: "rows = length g" and V: "V = posKey ` set order"
    and dom: "dom parent = posKey ` (set order \<union> set stack)"
    and pt: "parentTree g s dp parent"
    and cl: "\<forall>u \<in> set order. \<forall>v. (u, v) \<in> edges g \<longrightarrow> v \<in> set order \<union> set stack"
    and re: "\<forall>v \<in> set order \<union> set stack. (s, v) \<in> (edges g)\<^sup>*"
    and eo: "e \<notin> set order"
    and rg: "\<forall>v \<in> set stack. 0 \<le> row v \<and> row v < int (length g)"
    using inv by (simp_all add: dfsInv_def)
  have cs: "?cur \<in> set stack" using ne by simp
  have st: "set stack = insert ?cur (set (butlast stack))"
    using ne by (metis append_butlast_last_id list.set(1,2) set_append Un_insert_right sup_bot.right_neutral)
  have cd: "posKey ?cur \<in> dom parent" using dom cs by auto
  have pn: "\<And>v. v \<in> set pushed \<longleftrightarrow> v \<in> set (nbrs g ?cur) \<and> v \<noteq> ?cur \<and> v \<notin> set order"
    unfolding pushed V by auto
  have pk: "\<And>k. parent' k =
              (if k \<in> dom parent then parent k
               else if k \<in> posKey ` set pushed then Some (Some (last stack)) else None)"
    using par by blast
  have dom': "dom parent' = dom parent \<union> posKey ` set pushed"
  proof (rule set_eqI)
    fix k
    show "k \<in> dom parent' \<longleftrightarrow> k \<in> dom parent \<union> posKey ` set pushed"
      using pk[of k] by (cases "k \<in> dom parent") (auto simp: domIff)
  qed
  have sets: "set (order @ [?cur]) \<union> set (butlast stack @ rev pushed) =
      set order \<union> set stack \<union> set pushed"
    using st by auto
  have "parentTree g s ?dp' parent'"
    unfolding parentTree_def
  proof (intro conjI allI impI)
    have "posKey s \<in> dom parent" using pt by (rule parentTree_start)
    then show "parent' (posKey s) = Some None" "?dp' s = 0"
      using pk[of "posKey s"] pt by (simp_all add: parentTree_def)
  next
    fix v assume vd: "posKey v \<in> dom parent'" and vs: "v \<noteq> s"
    show "\<exists>u. parent' (posKey v) = Some (Some u) \<and> posKey u \<in> dom parent' \<and>
              (u, v) \<in> edges g \<and> ?dp' v = Suc (?dp' u)"
    proof (cases "posKey v \<in> dom parent")
      case True
      then obtain u where u: "parent (posKey v) = Some (Some u)" "posKey u \<in> dom parent"
        "(u, v) \<in> edges g" "dp v = Suc (dp u)"
        using pt vs by (auto simp: parentTree_def)
      then show ?thesis using True pk[of "posKey v"] dom' by (intro exI[of _ u]) auto
    next
      case False
      then have "posKey v \<in> posKey ` set pushed" using vd dom' by auto
      then have vp: "v \<in> set pushed" by auto
      then have "(?cur, v) \<in> edges g" using pn by (simp add: edges_def)
      then show ?thesis
        using False pk[of "posKey v"] cd dom' vp by (intro exI[of _ ?cur]) auto
    qed
  qed
  moreover have "\<forall>u \<in> set (order @ [?cur]). \<forall>v. (u, v) \<in> edges g \<longrightarrow>
      v \<in> set (order @ [?cur]) \<union> set (butlast stack @ rev pushed)"
  proof (intro ballI allI impI)
    fix u v assume u: "u \<in> set (order @ [?cur])" and uv: "(u, v) \<in> edges g"
    show "v \<in> set (order @ [?cur]) \<union> set (butlast stack @ rev pushed)"
    proof (cases "u \<in> set order")
      case True
      then show ?thesis using cl uv sets by blast
    next
      case False
      then have "u = ?cur" using u by simp
      then have "v \<in> set (nbrs g ?cur)" using uv by (simp add: edges_def)
      then show ?thesis using pn[of v] by auto
    qed
  qed
  moreover have "\<forall>v \<in> set (order @ [?cur]) \<union> set (butlast stack @ rev pushed). (s, v) \<in> (edges g)\<^sup>*"
  proof
    fix v assume "v \<in> set (order @ [?cur]) \<union> set (butlast stack @ rev pushed)"
    then consider "v \<in> set order \<union> set stack" | "v \<in> set pushed" unfolding sets by auto
    then show "(s, v) \<in> (edges g)\<^sup>*"
    proof cases
      case 1
      then show ?thesis using re by simp
    next
      case 2
      then have "(?cur, v) \<in> edges g" using pn by (simp add: edges_def)
      moreover have "(s, ?cur) \<in> (edges g)\<^sup>*" using re cs by simp
      ultimately show ?thesis by (rule rtrancl_into_rtrancl[rotated])
    qed
  qed
  moreover have "\<forall>v \<in> set (butlast stack @ rev pushed). 0 \<le> row v \<and> row v < int (length g)"
    using rg pn nbrs_rows by (auto dest: in_set_butlastD)
  moreover have "dom parent' = posKey ` (set (order @ [?cur]) \<union> set (butlast stack @ rev pushed))"
    unfolding sets dom' dom by auto
  moreover have "insert (posKey ?cur) V = posKey ` set (order @ [?cur])" using V by auto
  moreover have "e \<notin> set (order @ [?cur])" using eo nend by simp
  ultimately show ?thesis
    unfolding dfsInv_def prod.case using rows by (intro exI[of _ ?dp']) simp
qed

lemma dfsInv_end:
  assumes inv: "dfsInv g s e dp (stack, (rows, V), parent, order)" and ne: "stack \<noteq> []"
  shows "searchResult g s (last stack) dp (parent, order @ [last stack])"
proof -
  have "last stack \<in> set stack" using ne by simp
  then have "posKey (last stack) \<in> dom parent" "(s, last stack) \<in> (edges g)\<^sup>*"
    using inv by (auto simp: dfsInv_def)
  then show ?thesis using inv by (simp add: searchResult_def dfsInv_def)
qed

lemma dfsInv_empty:
  assumes inv: "dfsInv g s e dp ([], (rows, V), parent, order)"
  shows "searchResult g s e dp (parent, order)"
proof -
  have dom: "dom parent = posKey ` set order" and pt: "parentTree g s dp parent"
    and cl: "\<forall>u \<in> set order. \<forall>v. (u, v) \<in> edges g \<longrightarrow> v \<in> set order"
    and re: "\<forall>v \<in> set order. (s, v) \<in> (edges g)\<^sup>*" and eo: "e \<notin> set order"
    using inv by (simp_all add: dfsInv_def)
  have so: "s \<in> set order" using parentTree_start[OF pt] dom by auto
  have all: "\<And>p. (s, p) \<in> (edges g)\<^sup>* \<Longrightarrow> p \<in> set order"
    by (erule closed_reachable[OF _ so]) (use cl in blast)
  have "posKey e \<notin> dom parent" using dom eo by auto
  moreover have "(s, e) \<notin> (edges g)\<^sup>*" using all eo by blast
  moreover have "set order = {p. (s, p) \<in> (edges g)\<^sup>*}" using all re by auto
  ultimately show ?thesis using pt by (simp add: searchResult_def)
qed

lemma position_eq: "row (a :: Position) = row b \<and> col a = col b \<longleftrightarrow> a = b"
  by (cases a; cases b) simp

lemma dfs_loop_result:
  assumes "wf_grid g" and "dfsInv g s e dp st"
  shows "\<exists>r dp'. dfs_loop g e st = Inr r \<and> searchResult g s e dp' r"
  using assms
proof (induction g e st arbitrary: dp rule: dfs_loop.induct)
  case (1 g e stack visited parent order)
  obtain rows V where vis: "visited = (rows, V)" by (cases visited) auto
  note inv = "1.prems"(2)[unfolded vis]
  have rows: "rows = length g" using inv by (simp add: dfsInv_def)
  show ?case
  proof (cases "stack = []")
    case True
    then have "dfs_loop g e (stack, visited, parent, order) = Inr (parent, order)"
      by (simp add: dfs_loop.simps)
    then show ?thesis using dfsInv_empty[of g s e dp rows V parent order] inv True by auto
  next
    case ne: False
    let ?cur = "last stack"
    have cr: "0 \<le> row ?cur" "row ?cur < int rows"
      using inv ne by (auto simp: dfsInv_def)
    have mg: "matGet visited (row ?cur) (col ?cur) = Inr (posKey ?cur \<in> V)"
      using cr by (simp add: vis matGet_def posKey_def)
    show ?thesis
    proof (cases "posKey ?cur \<in> V")
      case True
      have eq: "dfs_loop g e (stack, visited, parent, order) =
          dfs_loop g e (butlast stack, visited, parent, order)"
        using ne mg True by (subst dfs_loop.simps) (simp add: Let_def)
      have "dfsInv g s e dp (butlast stack, visited, parent, order)"
        unfolding vis using inv ne True by (rule dfsInv_skip)
      then show ?thesis
        unfolding eq using "1.IH"(1)[OF ne refl refl mg _ "1.prems"(1)] True by blast
    next
      case nv: False
      have ms: "matSet visited (row ?cur) (col ?cur) = Inr (rows, insert (posKey ?cur) V)"
        using cr by (simp add: vis matSet_def posKey_def)
      show ?thesis
      proof (cases "?cur = e")
        case True
        then have "dfs_loop g e (stack, visited, parent, order) = Inr (parent, order @ [?cur])"
          using ne mg nv ms by (subst dfs_loop.simps) (simp add: Let_def)
        then show ?thesis using dfsInv_end[OF inv ne] True by auto
      next
        case nend: False
        then have nrc: "\<not> (row ?cur = row e \<and> col ?cur = col e)" by (simp add: position_eq)
        let ?V1 = "insert (posKey ?cur) V"
        let ?pushed = "filter (\<lambda>n. posKey n \<notin> ?V1) (nbrs g ?cur)"
        have gn: "getNeighbors g ?cur = Inr (nbrs g ?cur)"
          using "1.prems"(1) by (rule getNeighbors_nbrs)
        have rr: "\<forall>n \<in> set (rev (nbrs g ?cur)). 0 \<le> row n \<and> row n < int rows"
          using nbrs_rows[of _ g ?cur] rows by simp
        obtain parent' where fe: "forEach (rev (nbrs g ?cur)) (dfsPush ?cur (rows, ?V1))
              (parent, butlast stack) =
            Inr (parent', butlast stack @ filter (\<lambda>n. posKey n \<notin> ?V1) (rev (nbrs g ?cur)))"
          and par: "\<forall>k. parent' k =
              (if k \<in> dom parent then parent k
               else if k \<in> posKey ` set (filter (\<lambda>n. posKey n \<notin> ?V1) (rev (nbrs g ?cur)))
                    then Some (Some ?cur) else None)"
          using forEach_dfsPush[OF rr, of ?cur ?V1 parent "butlast stack"] by blast
        have rp: "filter (\<lambda>n. posKey n \<notin> ?V1) (rev (nbrs g ?cur)) = rev ?pushed"
          by (simp add: rev_filter)
        have eq: "dfs_loop g e (stack, visited, parent, order) =
            dfs_loop g e (butlast stack @ rev ?pushed, (rows, ?V1), parent', order @ [?cur])"
          using ne mg nv ms nrc gn fe[unfolded rp]
          by (subst dfs_loop.simps) (auto simp: Let_def)
        have par': "\<forall>k. parent' k =
              (if k \<in> dom parent then parent k
               else if k \<in> posKey ` set ?pushed then Some (Some ?cur) else None)"
          using par unfolding rp by simp
        obtain dp' where inv': "dfsInv g s e dp' (butlast stack @ rev ?pushed, (rows, ?V1),
              parent', order @ [?cur])"
          using dfsInv_push[OF inv ne nv nend refl par'] by blast
        have "\<exists>r dp''. dfs_loop g e (butlast stack @ rev ?pushed, (rows, ?V1), parent',
              order @ [?cur]) = Inr r \<and> searchResult g s e dp'' r"
          using "1.IH"(2)[OF ne refl refl mg _ ms nrc gn _ refl "1.prems"(1) inv'] nv
            fe[unfolded rp] by simp
        then show ?thesis unfolding eq .
      qed
    qed
  qed
qed

subsection \<open>The breadth-first loop\<close>

lemma forEach_bfsVisit:
  assumes "distinct xs" and "\<forall>n \<in> set xs. 0 \<le> row n \<and> row n < int rows"
  shows "\<exists>parent'. forEach xs (bfsVisit cur) ((rows, V), parent, q) =
           Inr ((rows, V \<union> posKey ` set xs), parent', q @ filter (\<lambda>n. posKey n \<notin> V) xs) \<and>
           (\<forall>k. parent' k =
              (if k \<in> posKey ` set (filter (\<lambda>n. posKey n \<notin> V) xs) then Some (Some cur)
               else parent k))"
  using assms
proof (induction xs arbitrary: V parent q)
  case Nil
  then show ?case by simp
next
  case (Cons x xs)
  have rx: "0 \<le> row x" "row x < int rows" using Cons.prems(2) by simp_all
  have dx: "distinct xs" "x \<notin> set xs" using Cons.prems(1) by simp_all
  have rs: "\<forall>n \<in> set xs. 0 \<le> row n \<and> row n < int rows" using Cons.prems(2) by simp
  show ?case
  proof (cases "posKey x \<in> V")
    case True
    have b: "bfsVisit cur x ((rows, V), parent, q) = Inr ((rows, V), parent, q)"
      using rx True by (simp add: bfsVisit_def matGet_def posKey_def)
    have fl: "filter (\<lambda>n. posKey n \<notin> V) (x # xs) = filter (\<lambda>n. posKey n \<notin> V) xs"
      using True by simp
    have vs: "V \<union> posKey ` set (x # xs) = V \<union> posKey ` set xs" using True by auto
    have fe: "forEach (x # xs) (bfsVisit cur) ((rows, V), parent, q) =
        forEach xs (bfsVisit cur) ((rows, V), parent, q)"
      using b by simp
    show ?thesis unfolding fe fl vs by (rule Cons.IH[OF dx(1) rs])
  next
    case False
    let ?V1 = "insert (posKey x) V"
    let ?p1 = "parent(posKey x \<mapsto> Some cur)"
    have b: "bfsVisit cur x ((rows, V), parent, q) = Inr ((rows, ?V1), ?p1, q @ [x])"
      using rx False by (simp add: bfsVisit_def matGet_def matSet_def posKey_def)
    have fl1: "filter (\<lambda>n. posKey n \<notin> ?V1) xs = filter (\<lambda>n. posKey n \<notin> V) xs"
      using dx(2) by (intro filter_cong) auto
    obtain parent' where r: "forEach xs (bfsVisit cur) ((rows, ?V1), ?p1, q @ [x]) =
           Inr ((rows, ?V1 \<union> posKey ` set xs), parent',
                (q @ [x]) @ filter (\<lambda>n. posKey n \<notin> ?V1) xs)"
      and p: "\<And>k. parent' k =
              (if k \<in> posKey ` set (filter (\<lambda>n. posKey n \<notin> ?V1) xs) then Some (Some cur)
               else ?p1 k)"
      using Cons.IH[OF dx(1) rs, of ?V1 ?p1 "q @ [x]"] by blast
    have "forEach (x # xs) (bfsVisit cur) ((rows, V), parent, q) =
        Inr ((rows, V \<union> posKey ` set (x # xs)), parent',
             q @ filter (\<lambda>n. posKey n \<notin> V) (x # xs))"
      using b r False unfolding fl1 by simp
    moreover have "\<forall>k. parent' k =
        (if k \<in> posKey ` set (filter (\<lambda>n. posKey n \<notin> V) (x # xs)) then Some (Some cur)
         else parent k)"
    proof
      fix k
      show "parent' k =
        (if k \<in> posKey ` set (filter (\<lambda>n. posKey n \<notin> V) (x # xs)) then Some (Some cur)
         else parent k)"
        using p[of k] False unfolding fl1 by auto
    qed
    ultimately show ?thesis by blast
  qed
qed

definition bfsInv ::
  "Grid \<Rightarrow> Position \<Rightarrow> Position \<Rightarrow> (Position \<Rightarrow> nat)
   \<Rightarrow> Position list \<times> BoolMatrix \<times> ParentMap \<times> Position list \<Rightarrow> bool" where
  "bfsInv g s e dp st =
     (case st of (q, visited, parent, order) \<Rightarrow>
        fst visited = length g \<and>
        snd visited = posKey ` (set order \<union> set q) \<and>
        dom parent = snd visited \<and>
        parentTree g s dp parent \<and>
        (\<forall>u \<in> set order. \<forall>v. (u, v) \<in> edges g \<longrightarrow>
            v \<in> set order \<union> set q \<and> dp v \<le> Suc (dp u)) \<and>
        (\<forall>v \<in> set order \<union> set q. (s, v) \<in> (edges g)\<^sup>*) \<and>
        e \<notin> set order \<and>
        sorted (map dp q) \<and>
        (\<forall>x \<in> set q. dp x \<le> Suc (dp (hd q))) \<and>
        (\<forall>u \<in> set order. \<forall>x \<in> set q. dp u \<le> dp x))"

lemma bfsInvD:
  assumes "bfsInv g s e dp (q, (rows, V), parent, order)"
  shows "rows = length g" and "V = posKey ` (set order \<union> set q)" and "dom parent = V"
    and "parentTree g s dp parent"
    and "\<And>u v. u \<in> set order \<Longrightarrow> (u, v) \<in> edges g \<Longrightarrow>
               v \<in> set order \<union> set q \<and> dp v \<le> Suc (dp u)"
    and "\<And>v. v \<in> set order \<union> set q \<Longrightarrow> (s, v) \<in> (edges g)\<^sup>*"
    and "e \<notin> set order"
    and "sorted (map dp q)"
    and "\<And>x. x \<in> set q \<Longrightarrow> dp x \<le> Suc (dp (hd q))"
    and "\<And>u x. u \<in> set order \<Longrightarrow> x \<in> set q \<Longrightarrow> dp u \<le> dp x"
proof -
  have c: "rows = length g \<and>
        V = posKey ` (set order \<union> set q) \<and>
        dom parent = V \<and>
        parentTree g s dp parent \<and>
        (\<forall>u \<in> set order. \<forall>v. (u, v) \<in> edges g \<longrightarrow>
            v \<in> set order \<union> set q \<and> dp v \<le> Suc (dp u)) \<and>
        (\<forall>v \<in> set order \<union> set q. (s, v) \<in> (edges g)\<^sup>*) \<and>
        e \<notin> set order \<and>
        sorted (map dp q) \<and>
        (\<forall>x \<in> set q. dp x \<le> Suc (dp (hd q))) \<and>
        (\<forall>u \<in> set order. \<forall>x \<in> set q. dp u \<le> dp x)"
    by (rule assms[unfolded bfsInv_def prod.case fst_conv snd_conv])
  note c1 = c[THEN conjunct1]
  note c2 = c[THEN conjunct2, THEN conjunct1]
  note c3 = c[THEN conjunct2, THEN conjunct2, THEN conjunct1]
  note c4 = c[THEN conjunct2, THEN conjunct2, THEN conjunct2, THEN conjunct1]
  note r4 = c[THEN conjunct2, THEN conjunct2, THEN conjunct2, THEN conjunct2]
  note c5 = r4[THEN conjunct1]
  note c6 = r4[THEN conjunct2, THEN conjunct1]
  note c7 = r4[THEN conjunct2, THEN conjunct2, THEN conjunct1]
  note c8 = r4[THEN conjunct2, THEN conjunct2, THEN conjunct2, THEN conjunct1]
  note c9 = r4[THEN conjunct2, THEN conjunct2, THEN conjunct2, THEN conjunct2, THEN conjunct1]
  note c10 = r4[THEN conjunct2, THEN conjunct2, THEN conjunct2, THEN conjunct2, THEN conjunct2]
  show "rows = length g" by (rule c1)
  show "V = posKey ` (set order \<union> set q)" by (rule c2)
  show "dom parent = V" by (rule c3)
  show "parentTree g s dp parent" by (rule c4)
  show "\<And>u v. u \<in> set order \<Longrightarrow> (u, v) \<in> edges g \<Longrightarrow>
               v \<in> set order \<union> set q \<and> dp v \<le> Suc (dp u)"
    using c5 by blast
  show "\<And>v. v \<in> set order \<union> set q \<Longrightarrow> (s, v) \<in> (edges g)\<^sup>*"
    using c6 by blast
  show "e \<notin> set order" by (rule c7)
  show "sorted (map dp q)" by (rule c8)
  show "\<And>x. x \<in> set q \<Longrightarrow> dp x \<le> Suc (dp (hd q))"
    using c9 by blast
  show "\<And>u x. u \<in> set order \<Longrightarrow> x \<in> set q \<Longrightarrow> dp u \<le> dp x"
    using c10 by blast
qed

lemma bfsInv_step:
  assumes inv: "bfsInv g s e dp (cur # q, (rows, V), parent, order)" and nend: "cur \<noteq> e"
    and news: "news = filter (\<lambda>n. posKey n \<notin> V) (nbrs g cur)"
    and par: "\<forall>k. parent' k = (if k \<in> posKey ` set news then Some (Some cur) else parent k)"
  shows "\<exists>dp'. bfsInv g s e dp' (q @ news, (rows, V \<union> posKey ` set (nbrs g cur)), parent',
                  order @ [cur])"
proof -
  let ?dp' = "\<lambda>v. if v \<in> set news then Suc (dp cur) else dp v"
  note d = bfsInvD[OF inv]
  have rows: "rows = length g" and V: "V = posKey ` (set order \<union> set (cur # q))"
    and dom: "dom parent = V"
    and pt: "parentTree g s dp parent"
    and cl: "\<And>u v. u \<in> set order \<Longrightarrow> (u, v) \<in> edges g \<Longrightarrow>
               v \<in> set order \<union> set (cur # q) \<and> dp v \<le> Suc (dp u)"
    and re: "\<And>v. v \<in> set order \<union> set (cur # q) \<Longrightarrow> (s, v) \<in> (edges g)\<^sup>*"
    and eo: "e \<notin> set order"
    and so: "sorted (map dp (cur # q))"
    and near: "\<And>x. x \<in> set (cur # q) \<Longrightarrow> dp x \<le> Suc (dp cur)"
    and below: "\<And>u x. u \<in> set order \<Longrightarrow> x \<in> set (cur # q) \<Longrightarrow> dp u \<le> dp x"
    using d(1) d(2) d(3) d(4) d(5) d(6) d(7) d(8) d(9)[unfolded list.sel] d(10) by -
  have inV: "\<And>v. posKey v \<in> V \<longleftrightarrow> v \<in> set order \<union> set (cur # q)"
    unfolding V by auto
  have nw: "\<And>v. v \<in> set news \<longleftrightarrow> v \<in> set (nbrs g cur) \<and> posKey v \<notin> V"
    unfolding news by auto
  have old: "\<And>v. posKey v \<in> V \<Longrightarrow> ?dp' v = dp v" using nw by simp
  have pk: "\<And>k. parent' k = (if k \<in> posKey ` set news then Some (Some cur) else parent k)"
    using par by blast
  have pold: "\<And>v. posKey v \<in> V \<Longrightarrow> parent' (posKey v) = parent (posKey v)"
    using pk nw by auto
  have vn: "V \<union> posKey ` set (nbrs g cur) = V \<union> posKey ` set news"
    using nw by auto
  have sets: "set (order @ [cur]) \<union> set (q @ news) = (set order \<union> set (cur # q)) \<union> set news"
    by auto
  have V': "V \<union> posKey ` set (nbrs g cur) = posKey ` (set (order @ [cur]) \<union> set (q @ news))"
  proof -
    have "V \<union> posKey ` set news = posKey ` ((set order \<union> set (cur # q)) \<union> set news)"
      by (simp only: V image_Un)
    then show ?thesis by (simp only: vn sets)
  qed
  have dom': "dom parent' = V \<union> posKey ` set (nbrs g cur)"
    unfolding vn
  proof (rule set_eqI)
    fix k
    show "k \<in> dom parent' \<longleftrightarrow> k \<in> V \<union> posKey ` set news"
      using pk[of k] dom by (cases "k \<in> posKey ` set news") (auto simp: domIff)
  qed
  have curV: "posKey cur \<in> V" using inV by simp
  have pt': "parentTree g s ?dp' parent'"
    unfolding parentTree_def
  proof (intro conjI allI impI)
    have "posKey s \<in> V" using parentTree_start[OF pt] dom by simp
    then show "parent' (posKey s) = Some None" "?dp' s = 0"
      using pold[of s] old[of s] pt by (simp_all add: parentTree_def)
  next
    fix v assume vd: "posKey v \<in> dom parent'" and vs: "v \<noteq> s"
    show "\<exists>u. parent' (posKey v) = Some (Some u) \<and> posKey u \<in> dom parent' \<and>
              (u, v) \<in> edges g \<and> ?dp' v = Suc (?dp' u)"
    proof (cases "v \<in> set news")
      case True
      then have "(cur, v) \<in> edges g" using nw by (simp add: edges_def)
      moreover have "parent' (posKey v) = Some (Some cur)" using pk[of "posKey v"] True by simp
      moreover have "?dp' v = Suc (?dp' cur)" using True old[OF curV] by simp
      ultimately show ?thesis using curV dom' by (intro exI[of _ cur]) simp
    next
      case False
      then have vV: "posKey v \<in> V" using vd dom' nw by auto
      then obtain u where u: "parent (posKey v) = Some (Some u)" "posKey u \<in> dom parent"
        "(u, v) \<in> edges g" "dp v = Suc (dp u)"
        using pt vs dom by (auto simp: parentTree_def)
      have uV: "posKey u \<in> V" using u(2) dom by simp
      show ?thesis
        using u pold[OF vV] old[OF vV] old[OF uV] uV dom' by (intro exI[of _ u]) simp
    qed
  qed
  have cl': "\<forall>u \<in> set (order @ [cur]). \<forall>v. (u, v) \<in> edges g \<longrightarrow>
      v \<in> set (order @ [cur]) \<union> set (q @ news) \<and> ?dp' v \<le> Suc (?dp' u)"
  proof (intro ballI allI impI)
    fix u v assume u: "u \<in> set (order @ [cur])" and uv: "(u, v) \<in> edges g"
    have uV: "posKey u \<in> V" using u inV by auto
    show "v \<in> set (order @ [cur]) \<union> set (q @ news) \<and> ?dp' v \<le> Suc (?dp' u)"
    proof (cases "u \<in> set order")
      case True
      have "v \<in> set order \<union> set (cur # q)" "dp v \<le> Suc (dp u)" using cl[OF True uv] by simp_all
      then show ?thesis using old[of v] old[OF uV] inV[of v] by auto
    next
      case False
      then have uc: "u = cur" using u by simp
      then have vn: "v \<in> set (nbrs g cur)" using uv by (simp add: edges_def)
      show ?thesis
      proof (cases "posKey v \<in> V")
        case True
        then have m: "v \<in> set order \<union> set (cur # q)" using inV by simp
        have "dp v \<le> Suc (dp cur)"
        proof (cases "v \<in> set order")
          case True
          then have "dp v \<le> dp cur" using below[of v cur] by simp
          then show ?thesis by simp
        next
          case False
          then show ?thesis using m near[of v] by simp
        qed
        then show ?thesis using m old[OF True] old[OF curV] uc by auto
      next
        case False
        then have "v \<in> set news" using vn nw by simp
        then show ?thesis using old[OF curV] uc by simp
      qed
    qed
  qed
  have re': "\<forall>v \<in> set (order @ [cur]) \<union> set (q @ news). (s, v) \<in> (edges g)\<^sup>*"
  proof
    fix v assume "v \<in> set (order @ [cur]) \<union> set (q @ news)"
    then consider "v \<in> set order \<union> set (cur # q)" | "v \<in> set news" by auto
    then show "(s, v) \<in> (edges g)\<^sup>*"
    proof cases
      case 1
      then show ?thesis by (rule re)
    next
      case 2
      then have "(cur, v) \<in> edges g" using nw by (simp add: edges_def)
      moreover have "(s, cur) \<in> (edges g)\<^sup>*" using re[of cur] by simp
      ultimately show ?thesis by (rule rtrancl_into_rtrancl[rotated])
    qed
  qed
  have qV: "\<And>x. x \<in> set q \<Longrightarrow> ?dp' x = dp x" using old inV by simp
  have mq: "map ?dp' q = map dp q" using qV by (intro map_cong) simp_all
  have mn: "\<And>x. x \<in> set news \<Longrightarrow> ?dp' x = Suc (dp cur)" by simp
  have ge: "\<And>x. x \<in> set q \<Longrightarrow> dp cur \<le> dp x" using so by simp
  have so': "sorted (map ?dp' (q @ news))"
  proof -
    have "sorted (map ?dp' news)"
      using mn by (simp add: sorted_wrt_iff_nth_less sorted_map)
    moreover have "sorted (map dp q)" using so by simp
    moreover have "\<forall>x \<in> set (map dp q). \<forall>y \<in> set (map ?dp' news). x \<le> y"
      using near by auto
    ultimately show ?thesis unfolding map_append mq by (simp add: sorted_append)
  qed
  have near': "\<forall>x \<in> set (q @ news). ?dp' x \<le> Suc (?dp' (hd (q @ news)))"
  proof
    fix x assume x: "x \<in> set (q @ news)"
    have xle: "?dp' x \<le> Suc (dp cur)" using x near[of x] qV[of x] by auto
    show "?dp' x \<le> Suc (?dp' (hd (q @ news)))"
    proof (cases "q = []")
      case True
      then have "hd (q @ news) \<in> set news" using x by (cases news) auto
      then show ?thesis using xle by simp
    next
      case False
      then have h: "hd (q @ news) = hd q" "hd q \<in> set q" by simp_all
      then have "dp cur \<le> ?dp' (hd (q @ news))" using ge[of "hd q"] qV[of "hd q"] by simp
      then show ?thesis using xle by simp
    qed
  qed
  have below': "\<forall>u \<in> set (order @ [cur]). \<forall>x \<in> set (q @ news). ?dp' u \<le> ?dp' x"
  proof (intro ballI)
    fix u x assume u: "u \<in> set (order @ [cur])" and x: "x \<in> set (q @ news)"
    have "posKey u \<in> V" using u inV by auto
    then have du: "?dp' u = dp u" by (rule old)
    have "dp u \<le> dp cur" using u below[of u cur] by auto
    moreover have "dp cur \<le> ?dp' x" using x ge[of x] qV[of x] by auto
    ultimately show "?dp' u \<le> ?dp' x" using du by simp
  qed
  have "e \<notin> set (order @ [cur])" using eo nend by simp
  then show ?thesis
    unfolding bfsInv_def prod.case fst_conv snd_conv
    using rows V' dom' pt' cl' re' so' near' below' by (intro exI[of _ ?dp']) simp
qed

lemma bfsInv_minimal:
  assumes inv: "bfsInv g s e dp (e # q, (rows, V), parent, order)"
    and w: "(s, w) \<in> edges g ^^ k"
  shows "dp e \<le> k \<or> (w \<in> set order \<union> set (e # q) \<and> dp w \<le> k)"
  using w
proof (induction k arbitrary: w)
  case 0
  note d = bfsInvD[OF inv]
  have "posKey s \<in> V" using parentTree_start[OF d(4)] d(3) by simp
  then have "s \<in> set order \<union> set (e # q)" unfolding d(2) by auto
  moreover have "dp s = 0" using d(4) by (simp add: parentTree_def)
  ultimately show ?case using "0.prems" by simp
next
  case (Suc k)
  note d = bfsInvD[OF inv]
  from Suc.prems obtain y where y: "(s, y) \<in> edges g ^^ k" and yw: "(y, w) \<in> edges g" by auto
  from Suc.IH[OF y] show ?case
  proof
    assume "dp e \<le> k"
    then show ?thesis by simp
  next
    assume a: "y \<in> set order \<union> set (e # q) \<and> dp y \<le> k"
    show ?thesis
    proof (cases "dp e \<le> dp y")
      case True
      then show ?thesis using a by simp
    next
      case False
      have "y \<notin> set (e # q)"
      proof
        assume "y \<in> set (e # q)"
        then have "dp e \<le> dp y" using d(8) by auto
        then show False using False by simp
      qed
      then have "y \<in> set order" using a by simp
      then have "w \<in> set order \<union> set (e # q) \<and> dp w \<le> Suc (dp y)" using d(5) yw by blast
      then show ?thesis using a by simp
    qed
  qed
qed

text \<open>
  The outcome of the breadth-first loop: that of a search, and when \<open>e\<close> is found, its
  depth in the parent tree is at most the length of any walk from \<open>s\<close> to \<open>e\<close>.
\<close>

definition bfsResult ::
  "Grid \<Rightarrow> Position \<Rightarrow> Position \<Rightarrow> (Position \<Rightarrow> nat) \<Rightarrow> ParentMap \<times> Position list \<Rightarrow> bool" where
  "bfsResult g s e dp r =
     (searchResult g s e dp r \<and>
      (posKey e \<in> dom (fst r) \<longrightarrow> (\<forall>k. (s, e) \<in> edges g ^^ k \<longrightarrow> dp e \<le> k)))"

lemma bfsInv_end:
  assumes inv: "bfsInv g s e dp (e # q, (rows, V), parent, order)"
  shows "bfsResult g s e dp (parent, order @ [e])"
proof -
  note d = bfsInvD[OF inv]
  have "posKey e \<in> dom parent" unfolding d(3) d(2) by simp
  moreover have "(s, e) \<in> (edges g)\<^sup>*" using d(6)[of e] by simp
  moreover have "\<forall>k. (s, e) \<in> edges g ^^ k \<longrightarrow> dp e \<le> k"
    using bfsInv_minimal[OF inv] by blast
  ultimately show ?thesis using d(4) by (simp add: bfsResult_def searchResult_def)
qed

lemma bfsInv_empty:
  assumes inv: "bfsInv g s e dp ([], (rows, V), parent, order)"
  shows "bfsResult g s e dp (parent, order)"
proof -
  note d = bfsInvD[OF inv]
  have dom: "dom parent = posKey ` set order" using d(2,3) by simp
  have so: "s \<in> set order" using parentTree_start[OF d(4)] dom by auto
  have all: "\<And>p. (s, p) \<in> (edges g)\<^sup>* \<Longrightarrow> p \<in> set order"
    by (erule closed_reachable[OF _ so]) (use d(5) in auto)
  have "posKey e \<notin> dom parent" using dom d(7) by auto
  moreover have "(s, e) \<notin> (edges g)\<^sup>*" using all d(7) by blast
  moreover have "set order = {p. (s, p) \<in> (edges g)\<^sup>*}" using all d(6) by auto
  ultimately show ?thesis using d(4) by (simp add: bfsResult_def searchResult_def)
qed

lemma bfs_loop_result:
  assumes "wf_grid g" and "bfsInv g s e dp st"
  shows "\<exists>r dp'. bfs_loop g e st = Inr r \<and> bfsResult g s e dp' r"
  using assms
proof (induction g e st arbitrary: dp rule: bfs_loop.induct)
  case (1 g e visited parent order)
  obtain rows V where vis: "visited = (rows, V)" by (cases visited) auto
  have "bfs_loop g e ([], visited, parent, order) = Inr (parent, order)"
    by (simp add: bfs_loop.simps)
  then show ?case using bfsInv_empty[of g s e dp rows V parent order] "1.prems"(2) vis by auto
next
  case (2 g e cur q visited parent order)
  obtain rows V where vis: "visited = (rows, V)" by (cases visited) auto
  note inv = "2.prems"(2)[unfolded vis]
  have rows: "rows = length g" using bfsInvD(1)[OF inv] .
  show ?case
  proof (cases "cur = e")
    case True
    then have "bfs_loop g e (cur # q, visited, parent, order) = Inr (parent, order @ [cur])"
      by (simp add: bfs_loop.simps)
    then show ?thesis using bfsInv_end[of g s e dp q rows V parent order] inv True by auto
  next
    case nend: False
    then have nrc: "\<not> (row cur = row e \<and> col cur = col e)" by (simp add: position_eq)
    let ?news = "filter (\<lambda>n. posKey n \<notin> V) (nbrs g cur)"
    have gn: "getNeighbors g cur = Inr (nbrs g cur)"
      using "2.prems"(1) by (rule getNeighbors_nbrs)
    have rr: "\<forall>n \<in> set (nbrs g cur). 0 \<le> row n \<and> row n < int rows"
      using nbrs_rows[of _ g cur] rows by simp
    obtain parent' where fe: "forEach (nbrs g cur) (bfsVisit cur) ((rows, V), parent, q) =
           Inr ((rows, V \<union> posKey ` set (nbrs g cur)), parent', q @ ?news)"
      and par: "\<forall>k. parent' k =
              (if k \<in> posKey ` set ?news then Some (Some cur) else parent k)"
      using forEach_bfsVisit[OF distinct_nbrs rr, of cur V parent q] by blast
    have eq: "bfs_loop g e (cur # q, visited, parent, order) =
        bfs_loop g e (q @ ?news, (rows, V \<union> posKey ` set (nbrs g cur)), parent', order @ [cur])"
      using nrc gn fe unfolding vis by (subst bfs_loop.simps) auto
    obtain dp' where inv': "bfsInv g s e dp' (q @ ?news, (rows, V \<union> posKey ` set (nbrs g cur)),
          parent', order @ [cur])"
      using bfsInv_step[OF inv nend refl par] by blast
    have "\<exists>r dp''. bfs_loop g e (q @ ?news, (rows, V \<union> posKey ` set (nbrs g cur)), parent',
          order @ [cur]) = Inr r \<and> bfsResult g s e dp'' r"
      using "2.IH"[OF nrc gn _ refl refl "2.prems"(1) inv'] fe unfolding vis by simp
    then show ?thesis unfolding eq .
  qed
qed

subsection \<open>The two solvers on a well-formed grid\<close>

text \<open>
  The solvers are studied on the grids of the data model: rectangular, every cell holding
  its own row and column index. The generator returns only such grids, with one start
  and one end cell, as shown above. On a grid with a shorter row, or a start cell that
  holds other indices than its own, a solver may raise or search from elsewhere.
\<close>

lemma dfsInv_init:
  assumes "posKey s \<in> gridRange g"
  shows "dfsInv g s e (\<lambda>_. 0) ([s], newMatrix (length g) c, Map.empty(posKey s \<mapsto> None), [])"
  using assms
  by (auto simp: dfsInv_def newMatrix_def parentTree_def gridRange_def posKey_def)

lemma bfsInv_init:
  assumes "posKey s \<in> gridRange g"
  shows "bfsInv g s e (\<lambda>_. 0) ([s], (length g, {posKey s}), Map.empty(posKey s \<mapsto> None), [])"
  using assms
  by (auto simp: bfsInv_def parentTree_def gridRange_def)

lemma matSet_init:
  assumes "posKey s \<in> gridRange g"
  shows "matSet (newMatrix (length g) c) (row s) (col s) = Inr (length g, {posKey s})"
  using assms by (simp add: matSet_def newMatrix_def gridRange_def posKey_def)

definition searchOutcome ::
  "Grid \<Rightarrow> Position \<Rightarrow> Position \<Rightarrow> (Position \<Rightarrow> nat) \<Rightarrow> SolveResult \<Rightarrow> bool" where
  "searchOutcome g s e dp res =
     ((path res = None \<longleftrightarrow> (s, e) \<notin> (edges g)\<^sup>*) \<and>
      (path res = None \<longrightarrow> set (visitedOrder res) = {p. (s, p) \<in> (edges g)\<^sup>*}) \<and>
      (\<forall>ps. path res = Some ps \<longrightarrow>
          length ps = dp e + 1 \<and> hd ps = s \<and> last ps = e \<and> walk (edges g) ps))"

lemma searchResult_reconstruct:
  assumes "searchResult g s e dp (parent, order)"
  shows "\<exists>res. reconstruct parent e order = Some (Inr res) \<and>
           (posKey e \<in> dom parent \<longleftrightarrow> path res \<noteq> None) \<and>
           searchOutcome g s e dp res"
proof (cases "posKey e \<in> dom parent")
  case True
  have pt: "parentTree g s dp parent" using assms by (simp add: searchResult_def)
  have r: "(s, e) \<in> (edges g)\<^sup>*" using assms True by (simp add: searchResult_def)
  obtain ps where ps: "reconstruct parent e order = Some (Inr \<lparr>path = Some ps, visitedOrder = order\<rparr>)"
    "length ps = dp e + 1" "hd ps = s" "last ps = e" "walk (edges g) ps"
    using reconstruct_found[OF pt True, of order] by (elim exE conjE) (rule that)
  show ?thesis
    by (rule exI[of _ "\<lparr>path = Some ps, visitedOrder = order\<rparr>"])
       (simp add: ps r True searchOutcome_def)
next
  case False
  have "(s, e) \<notin> (edges g)\<^sup>*" "set order = {p. (s, p) \<in> (edges g)\<^sup>*}"
    using assms False by (simp_all add: searchResult_def)
  then show ?thesis
    by (intro exI[of _ "\<lparr>path = None, visitedOrder = order\<rparr>"])
       (simp add: reconstruct_none[OF False] False searchOutcome_def)
qed

lemma dfs_search:
  assumes wf: "wf_grid g" and fse: "findStartEnd g = Inr (s, e)"
  shows "\<exists>res dp. dfs g = Some (Inr res) \<and> searchOutcome g s e dp res"
proof -
  have ne: "g \<noteq> []" using wf by (simp add: wf_grid_def)
  have rng: "posKey s \<in> gridRange g" using findStartEnd_wf(1)[OF wf fse] .
  obtain r dp where r: "dfs_loop g e ([s], newMatrix (length g) (length (hd g)),
        Map.empty(posKey s \<mapsto> None), []) = Inr r" and sr: "searchResult g s e dp r"
    using dfs_loop_result[OF wf dfsInv_init[OF rng, of e "length (hd g)"]] by (elim exE conjE) (rule that)
  obtain parent order where po: "r = (parent, order)" by (cases r) auto
  have d: "dfs g = reconstruct parent e order"
    using fse ne r po by (simp add: dfs_def)
  obtain res where res: "reconstruct parent e order = Some (Inr res)"
     and out: "searchOutcome g s e dp res"
    using searchResult_reconstruct[OF sr[unfolded po]] by (elim exE conjE) (rule that)
  show ?thesis using res out unfolding d by (intro exI[of _ res] exI[of _ dp] conjI)
qed

lemma bfs_search:
  assumes wf: "wf_grid g" and fse: "findStartEnd g = Inr (s, e)"
  shows "\<exists>res dp. bfs g = Some (Inr res) \<and> searchOutcome g s e dp res \<and>
           (path res \<noteq> None \<longrightarrow> (\<forall>k. (s, e) \<in> edges g ^^ k \<longrightarrow> dp e \<le> k))"
proof -
  have ne: "g \<noteq> []" using wf by (simp add: wf_grid_def)
  have rng: "posKey s \<in> gridRange g" using findStartEnd_wf(1)[OF wf fse] .
  obtain r dp where r: "bfs_loop g e ([s], (length g, {posKey s}),
        Map.empty(posKey s \<mapsto> None), []) = Inr r" and br: "bfsResult g s e dp r"
    using bfs_loop_result[OF wf bfsInv_init[OF rng, of e]] by (elim exE conjE) (rule that)
  obtain parent order where po: "r = (parent, order)" by (cases r) auto
  have d: "bfs g = reconstruct parent e order"
    using fse ne r po matSet_init[OF rng] by (simp add: bfs_def)
  have sr: "searchResult g s e dp (parent, order)" using br po by (simp add: bfsResult_def)
  have mn: "posKey e \<in> dom parent \<longrightarrow> (\<forall>k. (s, e) \<in> edges g ^^ k \<longrightarrow> dp e \<le> k)"
    using br po by (simp add: bfsResult_def)
  obtain res where res: "reconstruct parent e order = Some (Inr res)"
     and dm: "posKey e \<in> dom parent \<longleftrightarrow> path res \<noteq> None"
     and out: "searchOutcome g s e dp res"
    using searchResult_reconstruct[OF sr] by (elim exE conjE) (rule that)
  have "path res \<noteq> None \<longrightarrow> (\<forall>k. (s, e) \<in> edges g ^^ k \<longrightarrow> dp e \<le> k)"
    using mn unfolding dm .
  then show ?thesis using res out unfolding d by (intro exI[of _ res] exI[of _ dp] conjI)
qed

subsection \<open>Routes through non-wall cells\<close>

text \<open>
  A route is a non-empty sequence of positions of the grid, none of them a wall, in which
  each position is next to its successor (one step up, down, left or right). A position
  is reachable from another when a route leads from the one to the other.
\<close>

fun route :: "Grid \<Rightarrow> Position list \<Rightarrow> bool" where
  "route g [] = False"
| "route g [p] = passable g (posKey p)"
| "route g (p # q # ps) =
     (passable g (posKey p) \<and> adjacent (posKey p) (posKey q) \<and> route g (q # ps))"

definition reachable :: "Grid \<Rightarrow> Position \<Rightarrow> Position \<Rightarrow> bool" where
  "reachable g s p = (\<exists>ps. route g ps \<and> hd ps = s \<and> last ps = p)"

lemma fourNeighbors_adjacent:
  "(q :: Position) \<in> set (fourNeighbors p) \<longleftrightarrow> adjacent (posKey p) (posKey q)"
  by (cases p; cases q) (auto simp: fourNeighbors_def deltas_def posKey_def adjacent_iff)

lemma edges_iff: "(p, q) \<in> edges g \<longleftrightarrow> adjacent (posKey p) (posKey q) \<and> passable g (posKey q)"
  by (auto simp: edges_def nbrs_def fourNeighbors_adjacent)

lemma route_walk: "route g ps \<Longrightarrow> walk (edges g) ps"
proof (induction g ps rule: route.induct)
  case (3 g p q ps)
  have "passable g (posKey q)" using "3.prems" by (cases ps) auto
  then show ?case using 3 by (simp add: edges_iff)
qed auto

lemma route_last: "route g ps \<Longrightarrow> passable g (posKey (last ps))"
  by (induction g ps rule: route.induct) auto

lemma route_snoc:
  assumes "route g ps" and "(last ps, q) \<in> edges g"
  shows "route g (ps @ [q])"
  using assms
  by (induction g ps rule: route.induct) (auto simp: edges_iff)

lemma walk_relpow:
  assumes "walk E ps" and "ps \<noteq> []"
  shows "(hd ps, last ps) \<in> E ^^ (length ps - 1)"
  using assms
proof (induction E ps rule: walk.induct)
  case (3 E u v vs)
  then have "(v, last (v # vs)) \<in> E ^^ length vs" by simp
  moreover have "(u, v) \<in> E" using "3.prems" by simp
  ultimately have "(u, last (v # vs)) \<in> E ^^ Suc (length vs)" by (rule relpow_Suc_I2[rotated])
  then show ?case by simp
qed auto

lemma reachable_iff:
  assumes "passable g (posKey s)"
  shows "reachable g s p \<longleftrightarrow> (s, p) \<in> (edges g)\<^sup>*"
proof
  assume "reachable g s p"
  then obtain ps where ps: "route g ps" "hd ps = s" "last ps = p" by (auto simp: reachable_def)
  then obtain xs where xs: "ps = s # xs" by (cases ps) auto
  show "(s, p) \<in> (edges g)\<^sup>*"
    using walk_rtrancl[of "edges g" s xs] route_walk[OF ps(1)] ps(3) xs by simp
next
  assume "(s, p) \<in> (edges g)\<^sup>*"
  then show "reachable g s p"
  proof (induction rule: rtrancl_induct)
    case base
    have "route g [s]" using assms by simp
    then show ?case unfolding reachable_def by (intro exI[of _ "[s]"]) simp
  next
    case (step y z)
    then obtain ps where ps: "route g ps" "hd ps = s" "last ps = y"
      by (auto simp: reachable_def)
    have ne: "ps \<noteq> []" using ps(1) by auto
    have "route g (ps @ [z])" using route_snoc[OF ps(1)] step(2) ps(3) by simp
    then show ?case unfolding reachable_def using ps(2) ne
      by (intro exI[of _ "ps @ [z]"]) simp
  qed
qed

lemma walk_route:
  assumes "walk (edges g) ps" and "ps \<noteq> []" and "passable g (posKey (hd ps))"
  shows "route g ps"
  using assms
  by (induction "edges g" ps rule: walk.induct) (auto simp: edges_iff)

lemma start_passable:
  assumes "wf_grid g" and "findStartEnd g = Inr (s, e)"
  shows "passable g (posKey s)"
  using findStartEnd_wf(1,2)[OF assms] by (simp add: passable_def cellType_def)


subsection \<open>Two small grids\<close>

definition blockedGrid :: Grid where
  "blockedGrid =
     [[\<lparr>row = 0, col = 0, type = Start\<rparr>, \<lparr>row = 0, col = 1, type = Passage\<rparr>,
       \<lparr>row = 0, col = 2, type = Wall\<rparr>],
      [\<lparr>row = 1, col = 0, type = Passage\<rparr>, \<lparr>row = 1, col = 1, type = Wall\<rparr>,
       \<lparr>row = 1, col = 2, type = End\<rparr>]]"

definition detourGrid :: Grid where
  "detourGrid =
     [[\<lparr>row = 0, col = 0, type = Start\<rparr>, \<lparr>row = 0, col = 1, type = Passage\<rparr>,
       \<lparr>row = 0, col = 2, type = End\<rparr>],
      [\<lparr>row = 1, col = 0, type = Passage\<rparr>, \<lparr>row = 1, col = 1, type = Wall\<rparr>,
       \<lparr>row = 1, col = 2, type = Passage\<rparr>],
      [\<lparr>row = 2, col = 0, type = Passage\<rparr>, \<lparr>row = 2, col = 1, type = Passage\<rparr>,
       \<lparr>row = 2, col = 2, type = Passage\<rparr>]]"


subsection \<open>What the solvers return\<close>

text \<open>
  Claim C4. On a well-formed grid with exactly one start cell and one end cell, let \<open>s\<close>
  and \<open>e\<close> be the positions \<^verbatim>\<open>findStartEnd\<close> returns, those of the start and of the end cell.
  Both \<^verbatim>\<open>bfs\<close> and \<^verbatim>\<open>dfs\<close> return a result (no exception, no endless loop). In each of them
  the path is null if and only if no route through non-wall cells leads from \<open>s\<close> to \<open>e\<close>,
  and then the visited order of each holds exactly the positions reachable from \<open>s\<close>
  through non-wall cells, the whole connected component of the start.
\<close>

theorem null_path_iff_unreachable:
  assumes "wf_grid g" and "countType Start g = 1" and "countType End g = 1"
  shows "\<exists>s e bres dres.
          findStartEnd g = Inr (s, e) \<and>
          cellType g (posKey s) = Start \<and> cellType g (posKey e) = End \<and>
          bfs g = Some (Inr bres) \<and> dfs g = Some (Inr dres) \<and>
          (path bres = None \<longleftrightarrow> \<not> reachable g s e) \<and>
          (path dres = None \<longleftrightarrow> \<not> reachable g s e) \<and>
          (\<not> reachable g s e \<longrightarrow>
             set (visitedOrder bres) = {p. reachable g s p} \<and>
             set (visitedOrder dres) = {p. reachable g s p})"
proof -
  obtain s e where fse: "findStartEnd g = Inr (s, e)"
    using findStartEnd_exists[OF assms(2,3)] by (elim exE) (rule that)
  note w = findStartEnd_wf[OF assms(1) fse]
  note ri = reachable_iff[OF start_passable[OF assms(1) fse], symmetric]
  obtain bres dpb where bb: "bfs g = Some (Inr bres)" and bo: "searchOutcome g s e dpb bres"
    using bfs_search[OF assms(1) fse] by (elim exE conjE) (rule that)
  obtain dres dpd where dd: "dfs g = Some (Inr dres)" and do: "searchOutcome g s e dpd dres"
    using dfs_search[OF assms(1) fse] by (elim exE conjE) (rule that)
  have b: "path bres = None \<longleftrightarrow> \<not> reachable g s e"
    "path bres = None \<longrightarrow> set (visitedOrder bres) = {p. reachable g s p}"
    using bo unfolding searchOutcome_def ri by simp_all
  have d: "path dres = None \<longleftrightarrow> \<not> reachable g s e"
    "path dres = None \<longrightarrow> set (visitedOrder dres) = {p. reachable g s p}"
    using do unfolding searchOutcome_def ri by simp_all
  have "findStartEnd g = Inr (s, e) \<and>
          cellType g (posKey s) = Start \<and> cellType g (posKey e) = End \<and>
          bfs g = Some (Inr bres) \<and> dfs g = Some (Inr dres) \<and>
          (path bres = None \<longleftrightarrow> \<not> reachable g s e) \<and>
          (path dres = None \<longleftrightarrow> \<not> reachable g s e) \<and>
          (\<not> reachable g s e \<longrightarrow>
             set (visitedOrder bres) = {p. reachable g s p} \<and>
             set (visitedOrder dres) = {p. reachable g s p})"
    using fse w(2,4) bb dd b d by simp
  then show ?thesis by (intro exI)
qed

theorem null_path_iff_unreachable_witness:
  "bfs blockedGrid =
     Some (Inr \<lparr>path = None,
                visitedOrder = [\<lparr>row = 0, col = 0\<rparr>, \<lparr>row = 1, col = 0\<rparr>, \<lparr>row = 0, col = 1\<rparr>]\<rparr>) \<and>
   dfs blockedGrid =
     Some (Inr \<lparr>path = None,
                visitedOrder = [\<lparr>row = 0, col = 0\<rparr>, \<lparr>row = 1, col = 0\<rparr>, \<lparr>row = 0, col = 1\<rparr>]\<rparr>) \<and>
   \<not> reachable blockedGrid \<lparr>row = 0, col = 0\<rparr> \<lparr>row = 1, col = 2\<rparr> \<and>
   {p. reachable blockedGrid \<lparr>row = 0, col = 0\<rparr> p} =
     {\<lparr>row = 0, col = 0\<rparr>, \<lparr>row = 1, col = 0\<rparr>, \<lparr>row = 0, col = 1\<rparr>}"
proof -
  have w: "wf_grid blockedGrid"
    by (simp add: wf_grid_def blockedGrid_def)
  have cs: "countType Start blockedGrid = 1" and ce: "countType End blockedGrid = 1"
    by (simp_all add: countType_def blockedGrid_def)
  have f: "findStartEnd blockedGrid = Inr (\<lparr>row = 0, col = 0\<rparr>, \<lparr>row = 1, col = 2\<rparr>)"
    by code_simp
  have b: "bfs blockedGrid =
     Some (Inr \<lparr>path = None,
                visitedOrder = [\<lparr>row = 0, col = 0\<rparr>, \<lparr>row = 1, col = 0\<rparr>, \<lparr>row = 0, col = 1\<rparr>]\<rparr>)"
    by code_simp
  have d: "dfs blockedGrid =
     Some (Inr \<lparr>path = None,
                visitedOrder = [\<lparr>row = 0, col = 0\<rparr>, \<lparr>row = 1, col = 0\<rparr>, \<lparr>row = 0, col = 1\<rparr>]\<rparr>)"
    by code_simp
  obtain s e bres dres where "findStartEnd blockedGrid = Inr (s, e) \<and>
          cellType blockedGrid (posKey s) = Start \<and> cellType blockedGrid (posKey e) = End \<and>
          bfs blockedGrid = Some (Inr bres) \<and> dfs blockedGrid = Some (Inr dres) \<and>
          (path bres = None \<longleftrightarrow> \<not> reachable blockedGrid s e) \<and>
          (path dres = None \<longleftrightarrow> \<not> reachable blockedGrid s e) \<and>
          (\<not> reachable blockedGrid s e \<longrightarrow>
             set (visitedOrder bres) = {p. reachable blockedGrid s p} \<and>
             set (visitedOrder dres) = {p. reachable blockedGrid s p})"
    using null_path_iff_unreachable[OF w cs ce] by (elim exE) (rule that)
  then have r: "findStartEnd blockedGrid = Inr (s, e)"
    "bfs blockedGrid = Some (Inr bres)"
    "path bres = None \<longleftrightarrow> \<not> reachable blockedGrid s e"
    "\<not> reachable blockedGrid s e \<longrightarrow> set (visitedOrder bres) = {p. reachable blockedGrid s p}"
    by simp_all
  have s: "s = \<lparr>row = 0, col = 0\<rparr>" and e: "e = \<lparr>row = 1, col = 2\<rparr>"
    using r(1) f by simp_all
  have bres: "bres = \<lparr>path = None,
                visitedOrder = [\<lparr>row = 0, col = 0\<rparr>, \<lparr>row = 1, col = 0\<rparr>, \<lparr>row = 0, col = 1\<rparr>]\<rparr>"
    using r(2) b by simp
  have n: "\<not> reachable blockedGrid \<lparr>row = 0, col = 0\<rparr> \<lparr>row = 1, col = 2\<rparr>"
    using r(3) unfolding s e bres by simp
  have "{p. reachable blockedGrid \<lparr>row = 0, col = 0\<rparr> p} =
     {\<lparr>row = 0, col = 0\<rparr>, \<lparr>row = 1, col = 0\<rparr>, \<lparr>row = 0, col = 1\<rparr>}"
    using r(4) n unfolding s e bres by simp
  then show ?thesis using b d n by (intro conjI)
qed

text \<open>
  Claim C1. On a well-formed grid with exactly one start cell and one end cell, at the
  positions \<open>s\<close> and \<open>e\<close> that \<^verbatim>\<open>findStartEnd\<close> returns, such that a route through non-wall
  cells leads from \<open>s\<close> to \<open>e\<close>: \<^verbatim>\<open>bfs\<close> returns a path, the path is a route from \<open>s\<close> to
  \<open>e\<close>, and it has at most as many cells as any route from \<open>s\<close> to \<open>e\<close>. A route is a
  non-empty sequence of non-wall positions of the grid, each next to its successor.
\<close>

theorem bfs_shortest_path:
  assumes "wf_grid g" and "countType Start g = 1" and "countType End g = 1"
    and "findStartEnd g = Inr (s, e)" and "reachable g s e"
  shows "cellType g (posKey s) = Start \<and> cellType g (posKey e) = End \<and>
         (\<exists>res ps. bfs g = Some (Inr res) \<and> path res = Some ps \<and>
           route g ps \<and> hd ps = s \<and> last ps = e \<and>
           (\<forall>qs. route g qs \<and> hd qs = s \<and> last qs = e \<longrightarrow> length ps \<le> length qs))"
proof -
  note sp = start_passable[OF assms(1,4)]
  note w = findStartEnd_wf[OF assms(1,4)]
  have re: "(s, e) \<in> (edges g)\<^sup>*" using assms(5) reachable_iff[OF sp] by simp
  obtain res dp where b: "bfs g = Some (Inr res)" and bo: "searchOutcome g s e dp res"
    and bm: "path res \<noteq> None \<longrightarrow> (\<forall>k. (s, e) \<in> edges g ^^ k \<longrightarrow> dp e \<le> k)"
    using bfs_search[OF assms(1,4)] by (elim exE conjE) (rule that)
  have "path res \<noteq> None" using bo re by (simp add: searchOutcome_def)
  then obtain ps where ps: "path res = Some ps" by (cases "path res") auto
  have p: "length ps = dp e + 1" "hd ps = s" "last ps = e" "walk (edges g) ps"
    using bo ps by (simp_all add: searchOutcome_def)
  have mn: "\<And>k. (s, e) \<in> edges g ^^ k \<Longrightarrow> dp e \<le> k"
    using bm ps by simp
  have ne: "ps \<noteq> []" using p(1) by auto
  have rt: "route g ps" using walk_route[OF p(4) ne] sp p(2) by simp
  have "length ps \<le> length qs" if q: "route g qs" "hd qs = s" "last qs = e" for qs
  proof -
    have qne: "qs \<noteq> []" using q(1) by auto
    have "(s, e) \<in> edges g ^^ (length qs - 1)"
      using walk_relpow[OF route_walk[OF q(1)] qne] q(2,3) by simp
    then have "dp e \<le> length qs - 1" by (rule mn)
    then show ?thesis using p(1) qne by (cases qs) auto
  qed
  then have "\<forall>qs. route g qs \<and> hd qs = s \<and> last qs = e \<longrightarrow> length ps \<le> length qs"
    by simp
  then have "bfs g = Some (Inr res) \<and> path res = Some ps \<and>
           route g ps \<and> hd ps = s \<and> last ps = e \<and>
           (\<forall>qs. route g qs \<and> hd qs = s \<and> last qs = e \<longrightarrow> length ps \<le> length qs)"
    using b ps rt p(2,3) by simp
  then have "\<exists>res ps. bfs g = Some (Inr res) \<and> path res = Some ps \<and>
           route g ps \<and> hd ps = s \<and> last ps = e \<and>
           (\<forall>qs. route g qs \<and> hd qs = s \<and> last qs = e \<longrightarrow> length ps \<le> length qs)"
    by (intro exI)
  then show ?thesis using w(2,4) by (intro conjI)
qed

theorem bfs_shortest_path_witness:
  "bfs detourGrid =
     Some (Inr \<lparr>path = Some [\<lparr>row = 0, col = 0\<rparr>, \<lparr>row = 0, col = 1\<rparr>, \<lparr>row = 0, col = 2\<rparr>],
                visitedOrder = [\<lparr>row = 0, col = 0\<rparr>, \<lparr>row = 1, col = 0\<rparr>, \<lparr>row = 0, col = 1\<rparr>,
                                \<lparr>row = 2, col = 0\<rparr>, \<lparr>row = 0, col = 2\<rparr>]\<rparr>) \<and>
   route detourGrid [\<lparr>row = 0, col = 0\<rparr>, \<lparr>row = 0, col = 1\<rparr>, \<lparr>row = 0, col = 2\<rparr>] \<and>
   route detourGrid [\<lparr>row = 0, col = 0\<rparr>, \<lparr>row = 1, col = 0\<rparr>, \<lparr>row = 2, col = 0\<rparr>,
      \<lparr>row = 2, col = 1\<rparr>, \<lparr>row = 2, col = 2\<rparr>, \<lparr>row = 1, col = 2\<rparr>, \<lparr>row = 0, col = 2\<rparr>]"
proof -
  let ?s = "\<lparr>row = 0, col = 0\<rparr> :: Position"
  let ?e = "\<lparr>row = 0, col = 2\<rparr> :: Position"
  let ?long = "[\<lparr>row = 0, col = 0\<rparr>, \<lparr>row = 1, col = 0\<rparr>, \<lparr>row = 2, col = 0\<rparr>,
      \<lparr>row = 2, col = 1\<rparr>, \<lparr>row = 2, col = 2\<rparr>, \<lparr>row = 1, col = 2\<rparr>, \<lparr>row = 0, col = 2\<rparr>] :: Position list"
  have w: "wf_grid detourGrid"
    by (simp add: wf_grid_def detourGrid_def)
  have cs: "countType Start detourGrid = 1" and ce: "countType End detourGrid = 1"
    by (simp_all add: countType_def detourGrid_def)
  have f: "findStartEnd detourGrid = Inr (?s, ?e)"
    by code_simp
  have long: "route detourGrid ?long"
    by (simp add: passable_def gridRange_def posKey_def adjacent_def detourGrid_def)
  have re: "reachable detourGrid ?s ?e"
    unfolding reachable_def using long by (intro exI[of _ ?long]) simp
  have b: "bfs detourGrid =
     Some (Inr \<lparr>path = Some [\<lparr>row = 0, col = 0\<rparr>, \<lparr>row = 0, col = 1\<rparr>, \<lparr>row = 0, col = 2\<rparr>],
                visitedOrder = [\<lparr>row = 0, col = 0\<rparr>, \<lparr>row = 1, col = 0\<rparr>, \<lparr>row = 0, col = 1\<rparr>,
                                \<lparr>row = 2, col = 0\<rparr>, \<lparr>row = 0, col = 2\<rparr>]\<rparr>)"
    by code_simp
  obtain res ps where r: "bfs detourGrid = Some (Inr res)" "path res = Some ps"
    "route detourGrid ps"
    using bfs_shortest_path[OF w cs ce f re, THEN conjunct2, THEN conjunct2]
    by (elim exE conjE) (rule that)
  have "ps = [\<lparr>row = 0, col = 0\<rparr>, \<lparr>row = 0, col = 1\<rparr>, \<lparr>row = 0, col = 2\<rparr>]"
    using r(1,2) b by auto
  then have "route detourGrid [\<lparr>row = 0, col = 0\<rparr>, \<lparr>row = 0, col = 1\<rparr>, \<lparr>row = 0, col = 2\<rparr>]"
    using r(3) by simp
  then show ?thesis using b long by (intro conjI)
qed

section \<open>The iterations of dfs\<close>

text \<open>
  The loop of \<^verbatim>\<open>dfs\<close> as the specification describes it, on a state made of the stack
  (its top is the last element), the set of cells marked visited, the parent map and the
  visited order.
  \<^item> The top of the stack is popped. If it is marked already, it is skipped: nothing else
    changes.
  \<^item> Otherwise it is marked and appended to the visited order, and this is the only place
    where a cell is marked or appended. If it is the end, the loop stops.
  \<^item> Otherwise its neighbours inside the grid that are no wall, taken in the order up,
    down, left, right, and not marked, are pushed in the reverse of that order, so that
    the first of them is on top. None of them is marked. A pushed neighbour that has no
    parent yet gets the popped cell as parent; a parent already set is kept.
  \<^item> The loop stops when the stack is empty.
\<close>

type_synonym DfsState = "Position list \<times> (int \<times> int) set \<times> ParentMap \<times> Position list"

definition specNeighbors :: "Grid \<Rightarrow> Position \<Rightarrow> Position list" where
  "specNeighbors g cur =
     filter (\<lambda>n. passable g (posKey n))
       [\<lparr>row = row cur - 1, col = col cur\<rparr>, \<lparr>row = row cur + 1, col = col cur\<rparr>,
        \<lparr>row = row cur, col = col cur - 1\<rparr>, \<lparr>row = row cur, col = col cur + 1\<rparr>]"

definition specDfsStep :: "Grid \<Rightarrow> Position \<Rightarrow> DfsState
    \<Rightarrow> DfsState + (ParentMap \<times> Position list)" where
  "specDfsStep g e st =
     (case st of (stack, marked, parent, order) \<Rightarrow>
        if stack = [] then Inr (parent, order)
        else let cur = last stack; rest = butlast stack
             in if posKey cur \<in> marked then Inl (rest, marked, parent, order)
                else if cur = e then Inr (parent, order @ [cur])
                else let pushed = filter (\<lambda>n. posKey n \<notin> insert (posKey cur) marked)
                                    (specNeighbors g cur)
                     in Inl (rest @ rev pushed, insert (posKey cur) marked,
                             (\<lambda>k. case parent k of
                                     Some p \<Rightarrow> Some p
                                   | None \<Rightarrow> if k \<in> posKey ` set pushed then Some (Some cur)
                                             else None),
                             order @ [cur]))"

primrec specDfsRun :: "nat \<Rightarrow> Grid \<Rightarrow> Position \<Rightarrow> DfsState
    \<Rightarrow> (ParentMap \<times> Position list) option" where
  "specDfsRun 0 g e st = None"
| "specDfsRun (Suc n) g e st =
     (case specDfsStep g e st of
        Inr r \<Rightarrow> Some r
      | Inl st' \<Rightarrow> specDfsRun n g e st')"

lemma specNeighbors_nbrs: "specNeighbors g cur = nbrs g cur"
  by (simp add: specNeighbors_def nbrs_def fourNeighbors_def deltas_def)

lemma dfs_loop_run:
  assumes "wf_grid g" and "fst visited = length g"
    and "\<forall>v \<in> set stack. 0 \<le> row v \<and> row v < int (length g)"
  shows "\<exists>n r. dfs_loop g e (stack, visited, parent, order) = Inr r \<and>
           specDfsRun n g e (stack, snd visited, parent, order) = Some r"
  using assms
proof (induction g e "(stack, visited, parent, order)" arbitrary: stack visited parent order
    rule: dfs_loop.induct)
  case (1 g e stack visited parent order)
  obtain rows V where vis: "visited = (rows, V)" by (cases visited) auto
  have rows: "rows = length g" using "1.prems"(2) vis by simp
  show ?case
  proof (cases "stack = []")
    case True
    have "dfs_loop g e (stack, visited, parent, order) = Inr (parent, order)"
      using True by (simp add: dfs_loop.simps)
    moreover have "specDfsRun (Suc 0) g e (stack, snd visited, parent, order) = Some (parent, order)"
      using True by (simp add: specDfsStep_def)
    ultimately show ?thesis by blast
  next
    case ne: False
    let ?cur = "last stack"
    have cr: "0 \<le> row ?cur" "row ?cur < int rows"
      using "1.prems"(3) ne rows by auto
    have mg: "matGet visited (row ?cur) (col ?cur) = Inr (posKey ?cur \<in> V)"
      using cr by (simp add: vis matGet_def posKey_def)
    have rest: "\<forall>v \<in> set (butlast stack). 0 \<le> row v \<and> row v < int (length g)"
      using "1.prems"(3) by (auto dest: in_set_butlastD)
    show ?thesis
    proof (cases "posKey ?cur \<in> V")
      case True
      have eq: "dfs_loop g e (stack, visited, parent, order) =
          dfs_loop g e (butlast stack, visited, parent, order)"
        using ne mg True by (subst dfs_loop.simps) (simp add: Let_def)
      have st: "specDfsStep g e (stack, snd visited, parent, order) =
          Inl (butlast stack, snd visited, parent, order)"
        using ne True by (simp add: specDfsStep_def vis Let_def)
      obtain n r where "dfs_loop g e (butlast stack, visited, parent, order) = Inr r"
        "specDfsRun n g e (butlast stack, snd visited, parent, order) = Some r"
        using "1.hyps"(1)[OF ne refl refl mg _ "1.prems"(1,2) rest] True by blast
      then have "dfs_loop g e (stack, visited, parent, order) = Inr r \<and>
          specDfsRun (Suc n) g e (stack, snd visited, parent, order) = Some r"
        using eq st by simp
      then show ?thesis by blast
    next
      case nv: False
      have ms: "matSet visited (row ?cur) (col ?cur) = Inr (rows, insert (posKey ?cur) V)"
        using cr by (simp add: vis matSet_def posKey_def)
      show ?thesis
      proof (cases "?cur = e")
        case True
        have "dfs_loop g e (stack, visited, parent, order) = Inr (parent, order @ [?cur])"
          using True ne mg nv ms by (subst dfs_loop.simps) (simp add: Let_def)
        moreover have "specDfsRun (Suc 0) g e (stack, snd visited, parent, order) =
            Some (parent, order @ [?cur])"
          using ne nv True by (simp add: specDfsStep_def vis Let_def)
        ultimately show ?thesis by blast
      next
        case nend: False
        then have nrc: "\<not> (row ?cur = row e \<and> col ?cur = col e)" by (simp add: position_eq)
        let ?V1 = "insert (posKey ?cur) V"
        let ?pushed = "filter (\<lambda>n. posKey n \<notin> ?V1) (nbrs g ?cur)"
        have gn: "getNeighbors g ?cur = Inr (nbrs g ?cur)"
          using "1.prems"(1) by (rule getNeighbors_nbrs)
        have rr: "\<forall>n \<in> set (rev (nbrs g ?cur)). 0 \<le> row n \<and> row n < int rows"
          using nbrs_rows[of _ g ?cur] rows by simp
        obtain parent' where fe: "forEach (rev (nbrs g ?cur)) (dfsPush ?cur (rows, ?V1))
              (parent, butlast stack) =
            Inr (parent', butlast stack @ filter (\<lambda>n. posKey n \<notin> ?V1) (rev (nbrs g ?cur)))"
          and par: "\<forall>k. parent' k =
              (if k \<in> dom parent then parent k
               else if k \<in> posKey ` set (filter (\<lambda>n. posKey n \<notin> ?V1) (rev (nbrs g ?cur)))
                    then Some (Some ?cur) else None)"
          using forEach_dfsPush[OF rr, of ?cur ?V1 parent "butlast stack"] by blast
        have rp: "filter (\<lambda>n. posKey n \<notin> ?V1) (rev (nbrs g ?cur)) = rev ?pushed"
          by (simp add: rev_filter)
        have eq: "dfs_loop g e (stack, visited, parent, order) =
            dfs_loop g e (butlast stack @ rev ?pushed, (rows, ?V1), parent', order @ [?cur])"
          using ne mg nv ms nrc gn fe[unfolded rp]
          by (subst dfs_loop.simps) (auto simp: Let_def)
        have pe: "parent' = (\<lambda>k. case parent k of
                                     Some p \<Rightarrow> Some p
                                   | None \<Rightarrow> if k \<in> posKey ` set ?pushed then Some (Some ?cur)
                                             else None)"
        proof (rule ext)
          fix k
          show "parent' k = (case parent k of Some p \<Rightarrow> Some p
                 | None \<Rightarrow> if k \<in> posKey ` set ?pushed then Some (Some ?cur) else None)"
            using spec[OF par[unfolded rp], of k] by (cases "parent k") (simp_all add: domIff)
        qed
        have "specDfsStep g e (stack, snd visited, parent, order) =
            Inl (butlast stack @ rev ?pushed, ?V1,
                 (\<lambda>k. case parent k of
                        Some p \<Rightarrow> Some p
                      | None \<Rightarrow> if k \<in> posKey ` set ?pushed then Some (Some ?cur)
                                else None), order @ [?cur])"
          using ne nv nend
          by (simp add: specDfsStep_def vis Let_def specNeighbors_nbrs cong: option.case_cong)
        then have st: "specDfsStep g e (stack, snd visited, parent, order) =
            Inl (butlast stack @ rev ?pushed, ?V1, parent', order @ [?cur])"
          by (simp only: pe)
        have new: "\<forall>v \<in> set (butlast stack @ rev ?pushed). 0 \<le> row v \<and> row v < int (length g)"
          using rest nbrs_rows[of _ g ?cur] by auto
        obtain n r where "dfs_loop g e (butlast stack @ rev ?pushed, (rows, ?V1), parent',
              order @ [?cur]) = Inr r"
          "specDfsRun n g e (butlast stack @ rev ?pushed, snd (rows, ?V1), parent',
              order @ [?cur]) = Some r"
          using "1.hyps"(2)[OF ne refl refl mg _ ms nrc gn _ refl "1.prems"(1) _ new] nv
            fe[unfolded rp] rows by auto
        then have "dfs_loop g e (stack, visited, parent, order) = Inr r \<and>
            specDfsRun (Suc n) g e (stack, snd visited, parent, order) = Some r"
          using eq st by simp
        then show ?thesis by blast
      qed
    qed
  qed
qed

lemma reconstruct_order:
  "reconstruct parent e order = Some (Inr res) \<Longrightarrow> visitedOrder res = order"
  by (auto simp: reconstruct_def split: if_splits option.splits)

lemma specDfsRun_distinct:
  assumes "specDfsRun n g e (stack, marked, parent, order) = Some (p, ord)"
    and "marked = posKey ` set order" and "distinct order"
  shows "distinct ord"
  using assms
proof (induction n arbitrary: stack marked parent order)
  case 0
  then show ?case by simp
next
  case (Suc n)
  show ?case
  proof (cases "stack = []")
    case True
    then show ?thesis using Suc.prems by (simp add: specDfsStep_def)
  next
    case ne: False
    show ?thesis
    proof (cases "posKey (last stack) \<in> marked")
      case True
      then have "specDfsRun n g e (butlast stack, marked, parent, order) = Some (p, ord)"
        using Suc.prems(1) ne by (simp add: specDfsStep_def Let_def)
      then show ?thesis using Suc.IH Suc.prems(2,3) by blast
    next
      case nv: False
      have fresh: "last stack \<notin> set order" using nv Suc.prems(2) by auto
      show ?thesis
      proof (cases "last stack = e")
        case True
        then have "ord = order @ [last stack]"
          using Suc.prems(1) ne nv by (simp add: specDfsStep_def Let_def)
        then show ?thesis using Suc.prems(3) fresh by simp
      next
        case False
        then obtain stack' parent' where
          "specDfsRun n g e (stack', insert (posKey (last stack)) marked, parent',
             order @ [last stack]) = Some (p, ord)"
          using Suc.prems(1) ne nv by (simp add: specDfsStep_def Let_def)
        moreover have "insert (posKey (last stack)) marked = posKey ` set (order @ [last stack])"
          using Suc.prems(2) by simp
        moreover have "distinct (order @ [last stack])" using Suc.prems(3) fresh by simp
        ultimately show ?thesis using Suc.IH by blast
      qed
    qed
  qed
qed

definition ringGrid :: Grid where
  "ringGrid =
     [[\<lparr>row = 0, col = 0, type = Start\<rparr>, \<lparr>row = 0, col = 1, type = End\<rparr>,
       \<lparr>row = 0, col = 2, type = Passage\<rparr>],
      [\<lparr>row = 1, col = 0, type = Passage\<rparr>, \<lparr>row = 1, col = 1, type = Wall\<rparr>,
       \<lparr>row = 1, col = 2, type = Passage\<rparr>],
      [\<lparr>row = 2, col = 0, type = Passage\<rparr>, \<lparr>row = 2, col = 1, type = Passage\<rparr>,
       \<lparr>row = 2, col = 2, type = Passage\<rparr>]]"

text \<open>
  Claim C6. On a well-formed grid with exactly one start cell and one end cell, \<^verbatim>\<open>dfs\<close>
  is the loop described above, started with the start cell alone on the stack, pushed
  but not marked, no cell marked, the start cell without parent and an empty visited
  order: after some number of iterations the loop stops with a parent map and a visited
  order, \<^verbatim>\<open>dfs\<close> returns a result, its visited order is that of the loop, in which no
  cell occurs twice, and its path is the one rebuilt from the parent map of the loop.
\<close>

theorem dfs_iteration:
  assumes "wf_grid g" and "countType Start g = 1" and "countType End g = 1"
  shows "\<exists>s e n parent order res.
           findStartEnd g = Inr (s, e) \<and>
           specDfsRun n g e ([s], {}, Map.empty(posKey s \<mapsto> None), []) = Some (parent, order) \<and>
           dfs g = reconstruct parent e order \<and>
           dfs g = Some (Inr res) \<and> visitedOrder res = order \<and> distinct order"
proof -
  obtain s e where fse: "findStartEnd g = Inr (s, e)"
    using findStartEnd_exists[OF assms(2,3)] by (elim exE) (rule that)
  have ne: "g \<noteq> []" using assms(1) by (simp add: wf_grid_def)
  have rng: "posKey s \<in> gridRange g" using findStartEnd_wf(1)[OF assms(1) fse] .
  have st: "\<forall>v \<in> set [s]. 0 \<le> row v \<and> row v < int (length g)"
    using rng by (simp add: gridRange_def posKey_def)
  obtain n r where r: "dfs_loop g e ([s], newMatrix (length g) (length (hd g)),
        Map.empty(posKey s \<mapsto> None), []) = Inr r"
    and run: "specDfsRun n g e ([s], snd (newMatrix (length g) (length (hd g))),
        Map.empty(posKey s \<mapsto> None), []) = Some r"
    using dfs_loop_run[OF assms(1) _ st, of "newMatrix (length g) (length (hd g))" e
        "Map.empty(posKey s \<mapsto> None)" "[]"]
    by (auto simp: newMatrix_def)
  obtain parent order where po: "r = (parent, order)" by (cases r) auto
  have d: "dfs g = reconstruct parent e order"
    using fse ne r po by (simp add: dfs_def)
  obtain res dp where res: "dfs g = Some (Inr res)"
    using dfs_search[OF assms(1) fse] by (elim exE conjE) (rule that)
  have vo: "visitedOrder res = order" using res d reconstruct_order[of parent e order res] by simp
  have run': "specDfsRun n g e ([s], {}, Map.empty(posKey s \<mapsto> None), []) = Some (parent, order)"
    using run po by (simp add: newMatrix_def)
  have ds: "distinct order" using specDfsRun_distinct[OF run'] by simp
  have "findStartEnd g = Inr (s, e) \<and>
           specDfsRun n g e ([s], {}, Map.empty(posKey s \<mapsto> None), []) = Some (parent, order) \<and>
           dfs g = reconstruct parent e order \<and>
           dfs g = Some (Inr res) \<and> visitedOrder res = order \<and> distinct order"
    using fse run' d res vo ds by simp
  then show ?thesis by (intro exI)
qed

theorem dfs_iteration_witness:
  "\<exists>n parent.
     specDfsRun n ringGrid \<lparr>row = 0, col = 1\<rparr>
       ([\<lparr>row = 0, col = 0\<rparr>], {}, Map.empty((0, 0) \<mapsto> None), []) =
     Some (parent, [\<lparr>row = 0, col = 0\<rparr>, \<lparr>row = 1, col = 0\<rparr>, \<lparr>row = 2, col = 0\<rparr>,
                    \<lparr>row = 2, col = 1\<rparr>, \<lparr>row = 2, col = 2\<rparr>, \<lparr>row = 1, col = 2\<rparr>,
                    \<lparr>row = 0, col = 2\<rparr>, \<lparr>row = 0, col = 1\<rparr>]) \<and>
     reconstruct parent \<lparr>row = 0, col = 1\<rparr>
       [\<lparr>row = 0, col = 0\<rparr>, \<lparr>row = 1, col = 0\<rparr>, \<lparr>row = 2, col = 0\<rparr>,
        \<lparr>row = 2, col = 1\<rparr>, \<lparr>row = 2, col = 2\<rparr>, \<lparr>row = 1, col = 2\<rparr>,
        \<lparr>row = 0, col = 2\<rparr>, \<lparr>row = 0, col = 1\<rparr>] = dfs ringGrid \<and>
     dfs ringGrid =
       Some (Inr \<lparr>path = Some [\<lparr>row = 0, col = 0\<rparr>, \<lparr>row = 0, col = 1\<rparr>],
                  visitedOrder = [\<lparr>row = 0, col = 0\<rparr>, \<lparr>row = 1, col = 0\<rparr>, \<lparr>row = 2, col = 0\<rparr>,
                    \<lparr>row = 2, col = 1\<rparr>, \<lparr>row = 2, col = 2\<rparr>, \<lparr>row = 1, col = 2\<rparr>,
                    \<lparr>row = 0, col = 2\<rparr>, \<lparr>row = 0, col = 1\<rparr>]\<rparr>)"
proof -
  let ?order = "[\<lparr>row = 0, col = 0\<rparr>, \<lparr>row = 1, col = 0\<rparr>, \<lparr>row = 2, col = 0\<rparr>,
                    \<lparr>row = 2, col = 1\<rparr>, \<lparr>row = 2, col = 2\<rparr>, \<lparr>row = 1, col = 2\<rparr>,
                    \<lparr>row = 0, col = 2\<rparr>, \<lparr>row = 0, col = 1\<rparr>] :: Position list"
  have w: "wf_grid ringGrid"
    by (simp add: wf_grid_def ringGrid_def)
  have cs: "countType Start ringGrid = 1" and ce: "countType End ringGrid = 1"
    by (simp_all add: countType_def ringGrid_def)
  have f: "findStartEnd ringGrid = Inr (\<lparr>row = 0, col = 0\<rparr>, \<lparr>row = 0, col = 1\<rparr>)"
    by code_simp
  have d: "dfs ringGrid =
       Some (Inr \<lparr>path = Some [\<lparr>row = 0, col = 0\<rparr>, \<lparr>row = 0, col = 1\<rparr>],
                  visitedOrder = ?order\<rparr>)"
    by code_simp
  obtain s e n parent order res where "findStartEnd ringGrid = Inr (s, e) \<and>
      specDfsRun n ringGrid e ([s], {}, Map.empty(posKey s \<mapsto> None), []) = Some (parent, order) \<and>
      dfs ringGrid = reconstruct parent e order \<and>
      dfs ringGrid = Some (Inr res) \<and> visitedOrder res = order \<and> distinct order"
    using dfs_iteration[OF w cs ce] by (elim exE) (rule that)
  note r = this[THEN conjunct1] this[THEN conjunct2, THEN conjunct1]
    this[THEN conjunct2, THEN conjunct2, THEN conjunct1]
    this[THEN conjunct2, THEN conjunct2, THEN conjunct2, THEN conjunct1]
    this[THEN conjunct2, THEN conjunct2, THEN conjunct2, THEN conjunct2, THEN conjunct1]
  have s: "s = \<lparr>row = 0, col = 0\<rparr>" and e: "e = \<lparr>row = 0, col = 1\<rparr>"
    using r(1) f by simp_all
  have o: "order = ?order" using r(4,5) d by auto
  have "specDfsRun n ringGrid \<lparr>row = 0, col = 1\<rparr>
       ([\<lparr>row = 0, col = 0\<rparr>], {}, Map.empty((0, 0) \<mapsto> None), []) = Some (parent, ?order)"
    using r(2) unfolding s e o by (simp add: posKey_def)
  moreover have "reconstruct parent \<lparr>row = 0, col = 1\<rparr> ?order = dfs ringGrid"
    using r(3) unfolding s e o by simp
  ultimately show ?thesis using d by (intro exI conjI)
qed

end
